theory Spec2Isabelle
  imports Main "HOL-Library.AList" "HOL-Library.Multiset"
begin

section \<open>Python values, exceptions and dictionaries\<close>

text \<open>
  The program is dynamically typed: a cell of a row read from the csv file, a dictionary key
  and a stored count are Python objects whose class is only inspected at run time
  (\<^verbatim>\<open>isinstance\<close> in \<^verbatim>\<open>create_csv\<close>, the argument conversion of
  \<^verbatim>\<open>datetime.date\<close>). The values modelled are strings, (unbounded) integers and
  \<^verbatim>\<open>None\<close>, the last standing for an object that is neither a \<^verbatim>\<open>str\<close> nor an
  \<^verbatim>\<open>int\<close>. Floats and booleans are left out: as dictionary keys they compare equal to
  integers across classes, which HOL equality on this type would not reproduce.
\<close>

datatype pyval = PyStr string | PyInt int | PyNone

datatype py_error = TypeError | ValueError | OverflowError | IndexError | KeyError

text \<open>Sequencing of computations that may raise: the first exception ends the computation.\<close>

fun py_bind :: "py_error + 'a \<Rightarrow> ('a \<Rightarrow> py_error + 'b) \<Rightarrow> py_error + 'b" where
  "py_bind (Inl e) f = Inl e"
| "py_bind (Inr v) f = f v"

text \<open>
  \<^verbatim>\<open>for x in xs: body\<close> with the loop state passed along; an exception raised by the body
  leaves the loop.
\<close>

fun for_loop :: "'x list \<Rightarrow> ('x \<Rightarrow> 's \<Rightarrow> py_error + 's) \<Rightarrow> 's \<Rightarrow> py_error + 's" where
  "for_loop [] body s = Inr s"
| "for_loop (x # xs) body s = py_bind (body x s) (for_loop xs body)"

text \<open>
  A \<^verbatim>\<open>dict\<close> is the list of its items in insertion order. \<^verbatim>\<open>d[k]\<close> raises
  \<^verbatim>\<open>KeyError\<close> on a missing key, \<^verbatim>\<open>d[k] = v\<close> replaces the value of a key that is
  present, in place, and appends a new key at the end; iterating a dictionary yields its keys.
\<close>

type_synonym ('k, 'v) dict = "('k \<times> 'v) list"

definition keys :: "('k, 'v) dict \<Rightarrow> 'k list" where
  "keys d = map fst d"

definition getitem :: "('k, 'v) dict \<Rightarrow> 'k \<Rightarrow> py_error + 'v" where
  "getitem d k = (case map_of d k of None \<Rightarrow> Inl KeyError | Some v \<Rightarrow> Inr v)"

definition setitem :: "('k, 'v) dict \<Rightarrow> 'k \<Rightarrow> 'v \<Rightarrow> ('k, 'v) dict" where
  "setitem d k v = AList.update k v d"

text \<open>
  \<^verbatim>\<open>isinstance(v, str)\<close> and \<^verbatim>\<open>isinstance(v, int)\<close> on the values modelled.
\<close>

definition isinstance_str :: "pyval \<Rightarrow> bool" where
  "isinstance_str v = (case v of PyStr _ \<Rightarrow> True | _ \<Rightarrow> False)"

definition isinstance_int :: "pyval \<Rightarrow> bool" where
  "isinstance_int v = (case v of PyInt _ \<Rightarrow> True | _ \<Rightarrow> False)"

text \<open>
  Python's \<^verbatim>\<open>+\<close> on the values modelled: the sum of two integers, the concatenation of
  two strings, \<^verbatim>\<open>TypeError\<close> otherwise.
\<close>

definition py_add :: "pyval \<Rightarrow> pyval \<Rightarrow> py_error + pyval" where
  "py_add a b = (case (a, b) of
       (PyInt i, PyInt j) \<Rightarrow> Inr (PyInt (i + j))
     | (PyStr s, PyStr t) \<Rightarrow> Inr (PyStr (s @ t))
     | _ \<Rightarrow> Inl TypeError)"

text \<open>
  A row of the data frame is the list of its cells; \<^verbatim>\<open>row[col]\<close> with an integer reads by
  position, a negative position counting from the end, and raises outside the row.
\<close>

definition row_get :: "pyval list \<Rightarrow> int \<Rightarrow> py_error + pyval" where
  "row_get row col =
     (if 0 \<le> col \<and> col < int (length row) then Inr (row ! nat col)
      else if col < 0 \<and> - int (length row) \<le> col then Inr (row ! nat (int (length row) + col))
      else Inl IndexError)"

section \<open>The date of the standard library\<close>

text \<open>
  \<^verbatim>\<open>datetime.date(year, month, day)\<close> converts its three arguments to C integers
  (\<^verbatim>\<open>TypeError\<close> for an object that is not an integer, \<^verbatim>\<open>OverflowError\<close> for an
  integer outside 32 bits), then checks the year against 1..9999, the month against 1..12
  and the day against the length of the month, raising \<^verbatim>\<open>ValueError\<close>. Dates are
  ordered by (year, month, day).
\<close>

datatype date = Date (date_year: int) (date_month: int) (date_day: int)

definition c_int :: "pyval \<Rightarrow> py_error + int" where
  "c_int v = (case v of
       PyInt i \<Rightarrow> if i < - (2 ^ 31) \<or> 2 ^ 31 - 1 < i then Inl OverflowError else Inr i
     | _ \<Rightarrow> Inl TypeError)"

definition is_leap :: "int \<Rightarrow> bool" where
  "is_leap y = (y mod 4 = 0 \<and> (y mod 100 \<noteq> 0 \<or> y mod 400 = 0))"

definition days_in_month :: "int \<Rightarrow> int \<Rightarrow> int" where
  "days_in_month y m =
     (if m = 2 then (if is_leap y then 29 else 28)
      else if m = 4 \<or> m = 6 \<or> m = 9 \<or> m = 11 then 30 else 31)"

definition mk_date :: "pyval \<Rightarrow> pyval \<Rightarrow> pyval \<Rightarrow> py_error + date" where
  "mk_date year month day =
     py_bind (c_int year) (\<lambda>y.
     py_bind (c_int month) (\<lambda>m.
     py_bind (c_int day) (\<lambda>d.
       if y < 1 \<or> 9999 < y then Inl ValueError
       else if m < 1 \<or> 12 < m then Inl ValueError
       else if d < 1 \<or> days_in_month y m < d then Inl ValueError
       else Inr (Date y m d))))"

definition date_le :: "date \<Rightarrow> date \<Rightarrow> bool" where
  "date_le a b =
     (date_year a < date_year b
      \<or> (date_year a = date_year b
         \<and> (date_month a < date_month b
            \<or> (date_month a = date_month b \<and> date_day a \<le> date_day b))))"

section \<open>The range predicate\<close>

text \<open>
  \<^verbatim>\<open>check_date_in_range\<close> of \<^verbatim>\<open>process_csv.py\<close>: three dates are built, in the order
  start, end, candidate, each on the first day of its month, and compared with
  \<^verbatim>\<open>start <= date <= end\<close>.
\<close>

definition check_date_in_range ::
    "pyval \<times> pyval \<Rightarrow> pyval \<times> pyval \<Rightarrow> pyval \<times> pyval \<Rightarrow> py_error + bool" where
  "check_date_in_range start_year_month end_year_month date_year_month =
     py_bind (mk_date (fst start_year_month) (snd start_year_month) (PyInt 1)) (\<lambda>start.
     py_bind (mk_date (fst end_year_month) (snd end_year_month) (PyInt 1)) (\<lambda>end.
     py_bind (mk_date (fst date_year_month) (snd date_year_month) (PyInt 1)) (\<lambda>date.
       Inr (date_le start date \<and> date_le date end))))"

text \<open>
  The spec's words for the same predicate: a (year, month) pair with a month of the calendar
  and a year the date type has is valid; its calendar position counts the months; the
  predicate holds when the candidate's position lies between the positions of the bounds.
  A caller's (year, month) pair of integers is passed as a pair of Python integers.
\<close>

definition valid_year_month :: "int \<times> int \<Rightarrow> bool" where
  "valid_year_month ym = (1 \<le> fst ym \<and> fst ym \<le> 9999 \<and> 1 \<le> snd ym \<and> snd ym \<le> 12)"

definition calendar_position :: "int \<times> int \<Rightarrow> int" where
  "calendar_position ym = 12 * fst ym + (snd ym - 1)"

definition py_year_month :: "int \<times> int \<Rightarrow> pyval \<times> pyval" where
  "py_year_month ym = (PyInt (fst ym), PyInt (snd ym))"

text \<open>A (year, month) argument whose month is an integer outside 1..12.\<close>

definition month_out_of_calendar :: "pyval \<times> pyval \<Rightarrow> bool" where
  "month_out_of_calendar ym = (case snd ym of PyInt m \<Rightarrow> m < 1 \<or> 12 < m | _ \<Rightarrow> False)"

text \<open>The order of (year, month) pairs: by year, then by month.\<close>

definition year_month_le :: "int \<times> int \<Rightarrow> int \<times> int \<Rightarrow> bool" where
  "year_month_le a b = (fst a < fst b \<or> (fst a = fst b \<and> snd a \<le> snd b))"

section \<open>The aggregate store\<close>

text \<open>
  Modelled from the spec: the class \<^verbatim>\<open>CrimeData\<close> of \<^verbatim>\<open>crime_data.py\<close>, with its
  methods \<^verbatim>\<open>increment_crime\<close> and \<^verbatim>\<open>fill_gaps\<close>, is imported by
  \<^verbatim>\<open>process_csv.py\<close> and is not among the sources. \<^verbatim>\<open>create_csv\<close> shows its shape:
  \<^verbatim>\<open>crime_occurrences[crime][neighbourhood]\<close> is an object whose attribute
  \<^verbatim>\<open>occurrences\<close> maps a year to a dictionary from months to counts. The operations below
  follow section 4.1 of the spec.
\<close>

record neighbourhood_series =
  occurrences :: "(pyval, (pyval, pyval) dict) dict"

record CrimeData =
  crime_occurrences :: "(pyval, (pyval, neighbourhood_series) dict) dict"

definition new_neighbourhood_series :: neighbourhood_series where
  "new_neighbourhood_series = \<lparr>occurrences = []\<rparr>"

text \<open>Modelled from the spec: the store is created empty.\<close>

definition new_CrimeData :: CrimeData where
  "new_CrimeData = \<lparr>crime_occurrences = []\<rparr>"

text \<open>
  Modelled from the spec: increment "adds amount to the count at the given four-level key
  path, creating intermediate mapping levels on demand", with "no error on first-time keys";
  a first-time key counts from 0, so that an amount of 0 "creates the key path with count 0".
  The lower two levels live in the neighbourhood's object, the upper two in the store. The
  spec has integer amounts; the addition is Python's, so an amount or a stored count of
  another class raises.
\<close>

definition increment_data ::
    "neighbourhood_series \<Rightarrow> pyval \<Rightarrow> pyval \<Rightarrow> pyval \<Rightarrow> py_error + neighbourhood_series" where
  "increment_data nd year month amount =
     (let months = (case map_of (occurrences nd) year of None \<Rightarrow> [] | Some ms \<Rightarrow> ms);
          count = (case map_of months month of None \<Rightarrow> PyInt 0 | Some c \<Rightarrow> c)
      in py_bind (py_add count amount) (\<lambda>total.
           Inr (nd\<lparr>occurrences := setitem (occurrences nd) year (setitem months month total)\<rparr>)))"

definition increment_crime ::
    "CrimeData \<Rightarrow> pyval \<Rightarrow> pyval \<Rightarrow> pyval \<Rightarrow> pyval \<Rightarrow> pyval \<Rightarrow> py_error + CrimeData" where
  "increment_crime cd crime neighbourhood year month amount =
     (let nbs = (case map_of (crime_occurrences cd) crime of None \<Rightarrow> [] | Some x \<Rightarrow> x);
          nd = (case map_of nbs neighbourhood of None \<Rightarrow> new_neighbourhood_series | Some x \<Rightarrow> x)
      in py_bind (increment_data nd year month amount) (\<lambda>nd'.
           Inr (cd\<lparr>crime_occurrences :=
                  setitem (crime_occurrences cd) crime (setitem nbs neighbourhood nd')\<rparr>)))"

text \<open>
  Modelled from the spec: read access to the nested structure, as the count stored at a key
  path, if there is one, and as the presence of a (crime type, neighbourhood) pair.
\<close>

definition series_get :: "neighbourhood_series \<Rightarrow> pyval \<Rightarrow> pyval \<Rightarrow> pyval option" where
  "series_get nd year month =
     (case map_of (occurrences nd) year of None \<Rightarrow> None | Some months \<Rightarrow> map_of months month)"

definition get_count :: "CrimeData \<Rightarrow> pyval \<Rightarrow> pyval \<Rightarrow> pyval \<Rightarrow> pyval \<Rightarrow> pyval option" where
  "get_count cd crime neighbourhood year month =
     (case map_of (crime_occurrences cd) crime of None \<Rightarrow> None
      | Some nbs \<Rightarrow> (case map_of nbs neighbourhood of None \<Rightarrow> None
      | Some nd \<Rightarrow> series_get nd year month))"

definition pair_present :: "CrimeData \<Rightarrow> pyval \<Rightarrow> pyval \<Rightarrow> bool" where
  "pair_present cd crime neighbourhood =
     (case map_of (crime_occurrences cd) crime of None \<Rightarrow> False
      | Some nbs \<Rightarrow> (case map_of nbs neighbourhood of None \<Rightarrow> False | Some _ \<Rightarrow> True))"

text \<open>
  Modelled from the spec: gap-filling "for every (crime_type, neighbourhood) pair already
  present in the store, ensures every (year, month) in the inclusive range has an entry,
  inserting zero-valued entries for any missing month", iterating "in calendar order (year
  ascending, then month 1-12 ascending)" with December followed by January of the next year;
  a start after the end gives the empty range. The months of the range are listed by their
  calendar positions. Keys and objects of the upper two levels stay as they are.
\<close>

definition year_month_at :: "int \<Rightarrow> int \<times> int" where
  "year_month_at i = (i div 12, i mod 12 + 1)"

definition months_in_range :: "int \<times> int \<Rightarrow> int \<times> int \<Rightarrow> (int \<times> int) list" where
  "months_in_range start end =
     map year_month_at [calendar_position start .. calendar_position end]"

definition ensure_month :: "int \<times> int \<Rightarrow> neighbourhood_series \<Rightarrow> neighbourhood_series" where
  "ensure_month ym nd =
     (let months = (case map_of (occurrences nd) (PyInt (fst ym)) of None \<Rightarrow> [] | Some ms \<Rightarrow> ms)
      in case map_of months (PyInt (snd ym)) of
           Some _ \<Rightarrow> nd
         | None \<Rightarrow> nd\<lparr>occurrences :=
                      setitem (occurrences nd) (PyInt (fst ym))
                        (setitem months (PyInt (snd ym)) (PyInt 0))\<rparr>)"

definition map_values :: "('v \<Rightarrow> 'w) \<Rightarrow> ('k, 'v) dict \<Rightarrow> ('k, 'w) dict" where
  "map_values f d = map (\<lambda>kv. (fst kv, f (snd kv))) d"

definition fill_gaps :: "CrimeData \<Rightarrow> int \<times> int \<Rightarrow> int \<times> int \<Rightarrow> CrimeData" where
  "fill_gaps cd start_year_month end_year_month =
     cd\<lparr>crime_occurrences :=
          map_values
            (map_values (fold ensure_month (months_in_range start_year_month end_year_month)))
            (crime_occurrences cd)\<rparr>"

section \<open>Ingestion\<close>

text \<open>
  The class \<^verbatim>\<open>CrimeData\<close> is imported from a module that is not among the sources.
  \<^verbatim>\<open>build_crime_data_class\<close> uses three things of it: the constructor and the methods
  \<^verbatim>\<open>increment_crime\<close> and \<^verbatim>\<open>fill_gaps\<close>, each of which may raise. The function is
  modelled over any class that has these three.
\<close>

record 's store_class =
  new_store :: 's
  increment_crime_of :: "'s \<Rightarrow> pyval \<Rightarrow> pyval \<Rightarrow> pyval \<Rightarrow> pyval \<Rightarrow> pyval \<Rightarrow> py_error + 's"
  fill_gaps_of :: "'s \<Rightarrow> int \<times> int \<Rightarrow> int \<times> int \<Rightarrow> py_error + 's"

text \<open>
  Modelled from the spec: the class \<^verbatim>\<open>CrimeData\<close> of \<^verbatim>\<open>crime_data.py\<close> with
  the operations of the section before; its gap-filling raises nothing.
\<close>

definition CrimeData_class :: "CrimeData store_class" where
  "CrimeData_class =
     \<lparr>new_store = new_CrimeData,
      increment_crime_of = increment_crime,
      fill_gaps_of = (\<lambda>cd start_year_month end_year_month.
                        Inr (fill_gaps cd start_year_month end_year_month))\<rparr>"

text \<open>
  \<^verbatim>\<open>build_crime_data_class\<close> of \<^verbatim>\<open>process_csv.py\<close>. Reading the file is outside the
  model: the rows of the data frame are an argument, in place of the path. The two loop
  bodies are definitions of their own. In raw mode the cells of the year and the month are
  read and tested against the range, then the four key cells are read and the store is
  incremented by 1; after the loop the gaps are filled. In processed mode the five cells are
  read and the store is incremented by the cell of the count column, which is
  \<^verbatim>\<open>None\<close> by default (\<^verbatim>\<open>row[None]\<close> raises \<^verbatim>\<open>KeyError\<close>). The range is a pair of
  (year, month) pairs of integers; its default \<^verbatim>\<open>None\<close>, meant for processed mode where
  the range is not used, is not modelled.
\<close>

definition raw_row_step ::
    "'s store_class \<Rightarrow> int \<Rightarrow> int \<Rightarrow> int \<Rightarrow> int \<Rightarrow> int \<times> int \<Rightarrow> int \<times> int \<Rightarrow> pyval list \<Rightarrow> 's
       \<Rightarrow> py_error + 's" where
  "raw_row_step crime_data col_num_crime_type col_num_year col_num_month col_num_neighbourhood
       start_year_month end_year_month row post_processing_data =
     py_bind (row_get row col_num_year) (\<lambda>y.
     py_bind (row_get row col_num_month) (\<lambda>m.
     py_bind (check_date_in_range (py_year_month start_year_month)
                (py_year_month end_year_month) (y, m)) (\<lambda>in_range.
       if in_range then
         py_bind (row_get row col_num_crime_type) (\<lambda>crime.
         py_bind (row_get row col_num_neighbourhood) (\<lambda>neighbourhood.
         py_bind (row_get row col_num_year) (\<lambda>year.
         py_bind (row_get row col_num_month) (\<lambda>month.
           increment_crime_of crime_data post_processing_data crime neighbourhood year month
             (PyInt 1)))))
       else Inr post_processing_data)))"

definition processed_row_step ::
    "'s store_class \<Rightarrow> int \<Rightarrow> int \<Rightarrow> int \<Rightarrow> int \<Rightarrow> int option \<Rightarrow> pyval list \<Rightarrow> 's
       \<Rightarrow> py_error + 's" where
  "processed_row_step crime_data col_num_crime_type col_num_year col_num_month
       col_num_neighbourhood col_num_occurrences row post_processing_data =
     py_bind (row_get row col_num_crime_type) (\<lambda>crime.
     py_bind (row_get row col_num_neighbourhood) (\<lambda>neighbourhood.
     py_bind (row_get row col_num_year) (\<lambda>year.
     py_bind (row_get row col_num_month) (\<lambda>month.
     py_bind (case col_num_occurrences of None \<Rightarrow> Inl KeyError | Some col \<Rightarrow> row_get row col)
       (\<lambda>amount.
         increment_crime_of crime_data post_processing_data crime neighbourhood year month
           amount)))))"

definition build_crime_data_class ::
    "'s store_class \<Rightarrow> pyval list list \<Rightarrow> int \<Rightarrow> int \<Rightarrow> int \<Rightarrow> int \<Rightarrow> bool \<Rightarrow> int option
       \<Rightarrow> int \<times> int \<Rightarrow> int \<times> int \<Rightarrow> py_error + 's" where
  "build_crime_data_class crime_data pre_processed_data col_num_crime_type col_num_year
       col_num_month col_num_neighbourhood reading_processed_data col_num_occurrences
       start_year_month end_year_month =
     (if \<not> reading_processed_data then
        py_bind
          (for_loop pre_processed_data
             (raw_row_step crime_data col_num_crime_type col_num_year col_num_month
                col_num_neighbourhood start_year_month end_year_month)
             (new_store crime_data))
          (\<lambda>post_processing_data.
             fill_gaps_of crime_data post_processing_data start_year_month end_year_month)
      else
        for_loop pre_processed_data
          (processed_row_step crime_data col_num_crime_type col_num_year col_num_month
             col_num_neighbourhood col_num_occurrences)
          (new_store crime_data))"

section \<open>Export\<close>

text \<open>
  \<^verbatim>\<open>create_csv\<close> of \<^verbatim>\<open>process_csv.py\<close>, up to the data frame it writes:
  \<^verbatim>\<open>formatted_dict\<close> with its five columns. The four loops iterate the keys of the
  nested dictionaries and look every key up again; the source repeats the whole path
  \<^verbatim>\<open>crime_occurrences[crime][neighbourhood].occurrences[year][month]\<close> from the store at
  each level, the model keeps the dictionary it has reached, the store being unchanged
  during export. Writing the file is outside the model.
\<close>

record formatted_dict =
  fd_crime_type :: "pyval list"
  fd_neighbourhood :: "pyval list"
  fd_year :: "pyval list"
  fd_month :: "pyval list"
  fd_count :: "pyval list"

definition new_formatted_dict :: formatted_dict where
  "new_formatted_dict =
     \<lparr>fd_crime_type = [], fd_neighbourhood = [], fd_year = [], fd_month = [], fd_count = []\<rparr>"

definition create_csv :: "CrimeData \<Rightarrow> py_error + formatted_dict" where
  "create_csv crime_data_class =
     for_loop (keys (crime_occurrences crime_data_class)) (\<lambda>crime formatted.
       py_bind (getitem (crime_occurrences crime_data_class) crime) (\<lambda>neighbourhoods.
       for_loop (keys neighbourhoods) (\<lambda>neighbourhood formatted.
         py_bind (getitem neighbourhoods neighbourhood) (\<lambda>series.
         for_loop (keys (occurrences series)) (\<lambda>year formatted.
           py_bind (getitem (occurrences series) year) (\<lambda>months.
           for_loop (keys months) (\<lambda>month formatted.
             py_bind (getitem months month) (\<lambda>count.
               if isinstance_str crime \<and> isinstance_str neighbourhood \<and> isinstance_int year
                  \<and> isinstance_int month \<and> isinstance_int count
               then Inr (formatted
                      \<lparr>fd_crime_type := fd_crime_type formatted @ [crime],
                       fd_neighbourhood := fd_neighbourhood formatted @ [neighbourhood],
                       fd_year := fd_year formatted @ [year],
                       fd_month := fd_month formatted @ [month],
                       fd_count := fd_count formatted @ [count]\<rparr>)
               else Inr formatted))
             formatted))
           formatted))
         formatted))
       new_formatted_dict"

section \<open>Notions of the statements\<close>

text \<open>
  The key path and the count a row carries, whether its date lies in the range, and the rows
  on which a loop body does not raise.
\<close>

type_synonym key_path = "pyval \<times> pyval \<times> pyval \<times> pyval"

definition row_key :: "int \<Rightarrow> int \<Rightarrow> int \<Rightarrow> int \<Rightarrow> pyval list \<Rightarrow> key_path option" where
  "row_key col_num_crime_type col_num_year col_num_month col_num_neighbourhood row =
     (case (row_get row col_num_crime_type, row_get row col_num_neighbourhood,
            row_get row col_num_year, row_get row col_num_month) of
        (Inr c, Inr n, Inr y, Inr m) \<Rightarrow> Some (c, n, y, m)
      | _ \<Rightarrow> None)"

definition row_in_range :: "int \<Rightarrow> int \<Rightarrow> int \<times> int \<Rightarrow> int \<times> int \<Rightarrow> pyval list \<Rightarrow> bool" where
  "row_in_range col_num_year col_num_month start_year_month end_year_month row =
     (case (row_get row col_num_year, row_get row col_num_month) of
        (Inr y, Inr m) \<Rightarrow>
          check_date_in_range (py_year_month start_year_month) (py_year_month end_year_month)
            (y, m) = Inr True
      | _ \<Rightarrow> False)"

definition row_amount :: "int option \<Rightarrow> pyval list \<Rightarrow> int option" where
  "row_amount col_num_occurrences row =
     (case col_num_occurrences of None \<Rightarrow> None
      | Some col \<Rightarrow> (case row_get row col of Inr (PyInt a) \<Rightarrow> Some a | _ \<Rightarrow> None))"

definition amount_of :: "int option \<Rightarrow> pyval list \<Rightarrow> int" where
  "amount_of cocc row = (case row_amount cocc row of None \<Rightarrow> 0 | Some a \<Rightarrow> a)"

definition raw_row_ok ::
    "int \<Rightarrow> int \<Rightarrow> int \<Rightarrow> int \<Rightarrow> int \<times> int \<Rightarrow> int \<times> int \<Rightarrow> pyval list \<Rightarrow> bool" where
  "raw_row_ok cct cy cm cn s e row =
     (case row_key cct cy cm cn row of
        None \<Rightarrow> False
      | Some k \<Rightarrow>
          (case check_date_in_range (py_year_month s) (py_year_month e) (fst (snd (snd k)), snd (snd (snd k))) of
             Inl _ \<Rightarrow> False
           | Inr _ \<Rightarrow> True))"

definition processed_row_ok ::
    "int \<Rightarrow> int \<Rightarrow> int \<Rightarrow> int \<Rightarrow> int option \<Rightarrow> pyval list \<Rightarrow> bool" where
  "processed_row_ok cct cy cm cn cocc row =
     (row_key cct cy cm cn row \<noteq> None \<and> row_amount cocc row \<noteq> None)"

text \<open>
  What the loops do with the store, in the words of the spec: the key paths of the rows in
  the range, in the order of the rows, each to be incremented by 1; and for a processed file
  the key path of every row with the cell of its count column, to be incremented by that.
\<close>

definition in_range_keys ::
    "int \<Rightarrow> int \<Rightarrow> int \<Rightarrow> int \<Rightarrow> int \<times> int \<Rightarrow> int \<times> int \<Rightarrow> pyval list list \<Rightarrow> key_path list" where
  "in_range_keys cct cy cm cn s e rows =
     List.map_filter
       (\<lambda>row. if row_in_range cy cm s e row then row_key cct cy cm cn row else None) rows"

definition row_count_cell :: "int option \<Rightarrow> pyval list \<Rightarrow> pyval option" where
  "row_count_cell cocc row =
     (case cocc of None \<Rightarrow> None
      | Some col \<Rightarrow> (case row_get row col of Inl _ \<Rightarrow> None | Inr a \<Rightarrow> Some a))"

definition row_event ::
    "int \<Rightarrow> int \<Rightarrow> int \<Rightarrow> int \<Rightarrow> int option \<Rightarrow> pyval list \<Rightarrow> (key_path \<times> pyval) option" where
  "row_event cct cy cm cn cocc row =
     (case row_key cct cy cm cn row of
        None \<Rightarrow> None
      | Some k \<Rightarrow> map_option (Pair k) (row_count_cell cocc row))"

definition processed_row_readable ::
    "int \<Rightarrow> int \<Rightarrow> int \<Rightarrow> int \<Rightarrow> int option \<Rightarrow> pyval list \<Rightarrow> bool" where
  "processed_row_readable cct cy cm cn cocc row = (row_event cct cy cm cn cocc row \<noteq> None)"

definition increment_at :: "'s store_class \<Rightarrow> key_path \<times> pyval \<Rightarrow> 's \<Rightarrow> py_error + 's" where
  "increment_at crime_data ev cd =
     increment_crime_of crime_data cd (fst (fst ev)) (fst (snd (fst ev)))
       (fst (snd (snd (fst ev)))) (snd (snd (snd (fst ev)))) (snd ev)"

text \<open>
  A list of items is a dictionary when its keys are unique; the store, when this holds at
  each of its four levels.
\<close>

definition unique_series :: "neighbourhood_series \<Rightarrow> bool" where
  "unique_series nd =
     (distinct (keys (occurrences nd))
      \<and> (\<forall>ym \<in> set (occurrences nd). distinct (keys (snd ym))))"

definition unique_neighbourhoods :: "(pyval, neighbourhood_series) dict \<Rightarrow> bool" where
  "unique_neighbourhoods nbs =
     (distinct (keys nbs) \<and> (\<forall>nn \<in> set nbs. unique_series (snd nn)))"

definition unique_keys :: "CrimeData \<Rightarrow> bool" where
  "unique_keys cd =
     (distinct (keys (crime_occurrences cd))
      \<and> (\<forall>cn \<in> set (crime_occurrences cd). unique_neighbourhoods (snd cn)))"

text \<open>
  A sequence of increments at one key path; the count found there, 0 when there is none; and
  the store with a count written at a key path, the levels created on demand.
\<close>

definition increment_many ::
    "CrimeData \<Rightarrow> pyval \<Rightarrow> pyval \<Rightarrow> pyval \<Rightarrow> pyval \<Rightarrow> int list \<Rightarrow> py_error + CrimeData" where
  "increment_many cd c n y m amounts =
     for_loop amounts (\<lambda>a cd'. increment_crime cd' c n y m (PyInt a)) cd"

definition current_count :: "CrimeData \<Rightarrow> pyval \<Rightarrow> pyval \<Rightarrow> pyval \<Rightarrow> pyval \<Rightarrow> pyval" where
  "current_count cd c n y m = (case get_count cd c n y m of None \<Rightarrow> PyInt 0 | Some v \<Rightarrow> v)"

definition put_count :: "CrimeData \<Rightarrow> pyval \<Rightarrow> pyval \<Rightarrow> pyval \<Rightarrow> pyval \<Rightarrow> pyval \<Rightarrow> CrimeData" where
  "put_count cd c n y m v =
     (let nbs = (case map_of (crime_occurrences cd) c of None \<Rightarrow> [] | Some x \<Rightarrow> x);
          nd = (case map_of nbs n of None \<Rightarrow> new_neighbourhood_series | Some x \<Rightarrow> x);
          months = (case map_of (occurrences nd) y of None \<Rightarrow> [] | Some ms \<Rightarrow> ms)
      in cd\<lparr>crime_occurrences := setitem (crime_occurrences cd) c (setitem nbs n
            (nd\<lparr>occurrences := setitem (occurrences nd) y (setitem months m v)\<rparr>))\<rparr>)"

text \<open>
  The life of a store: created empty, then incremented and gap-filled in any order. An
  operation is harmless when its amount is not negative, a count when it is a non-negative
  integer.
\<close>

datatype store_op =
    Increment pyval pyval pyval pyval int
  | FillGaps "int \<times> int" "int \<times> int"

fun apply_op :: "store_op \<Rightarrow> CrimeData \<Rightarrow> py_error + CrimeData" where
  "apply_op (Increment c n y m a) cd = increment_crime cd c n y m (PyInt a)"
| "apply_op (FillGaps s e) cd = Inr (fill_gaps cd s e)"

definition lifecycle :: "store_op list \<Rightarrow> py_error + CrimeData" where
  "lifecycle ops = for_loop ops apply_op new_CrimeData"

fun nonneg_amount :: "store_op \<Rightarrow> bool" where
  "nonneg_amount (Increment c n y m a) = (0 \<le> a)"
| "nonneg_amount (FillGaps s e) = True"

definition nonneg_count :: "pyval \<Rightarrow> bool" where
  "nonneg_count v = (case v of PyInt k \<Rightarrow> 0 \<le> k | _ \<Rightarrow> False)"

text \<open>
  The flat records of the export, the data frame with given records as rows, and the shape
  (string, string, integer, integer, integer) in the spec's words.
\<close>

type_synonym flat_record = "pyval \<times> pyval \<times> pyval \<times> pyval \<times> pyval"

definition columns_of :: "flat_record list \<Rightarrow> formatted_dict" where
  "columns_of rows =
     \<lparr>fd_crime_type = map fst rows,
      fd_neighbourhood = map (\<lambda>r. fst (snd r)) rows,
      fd_year = map (\<lambda>r. fst (snd (snd r))) rows,
      fd_month = map (\<lambda>r. fst (snd (snd (snd r)))) rows,
      fd_count = map (\<lambda>r. snd (snd (snd (snd r)))) rows\<rparr>"

fun expected_shape :: "pyval \<Rightarrow> pyval \<Rightarrow> pyval \<Rightarrow> pyval \<Rightarrow> pyval \<Rightarrow> bool" where
  "expected_shape (PyStr c) (PyStr n) (PyInt y) (PyInt m) (PyInt v) = True"
| "expected_shape c n y m v = False"

section \<open>Notions of the proofs\<close>

text \<open>
  A ledger gives the integer count of every key path that has one. Ingestion is followed on
  ledgers: a store agrees with a ledger when its counts are those of the ledger, and a row
  that is ingested adds its amount at its key path.
\<close>

definition agrees :: "CrimeData \<Rightarrow> (key_path \<Rightarrow> int option) \<Rightarrow> bool" where
  "agrees cd L = (\<forall>c n y m. get_count cd c n y m = map_option PyInt (L (c, n, y, m)))"

definition add_event :: "key_path \<times> int \<Rightarrow> (key_path \<Rightarrow> int option) \<Rightarrow> (key_path \<Rightarrow> int option)" where
  "add_event e L = L(fst e \<mapsto> (case L (fst e) of None \<Rightarrow> 0 | Some b \<Rightarrow> b) + snd e)"

definition raw_event ::
    "int \<Rightarrow> int \<Rightarrow> int \<Rightarrow> int \<Rightarrow> int \<times> int \<Rightarrow> int \<times> int \<Rightarrow> pyval list
       \<Rightarrow> (key_path \<times> int) option" where
  "raw_event cct cy cm cn s e row =
     (if row_in_range cy cm s e row then map_option (\<lambda>k. (k, 1)) (row_key cct cy cm cn row)
      else None)"

definition processed_event ::
    "int \<Rightarrow> int \<Rightarrow> int \<Rightarrow> int \<Rightarrow> int option \<Rightarrow> pyval list \<Rightarrow> (key_path \<times> int) option" where
  "processed_event cct cy cm cn cocc row =
     (case row_key cct cy cm cn row of
        None \<Rightarrow> None
      | Some k \<Rightarrow> map_option (\<lambda>a. (k, a)) (row_amount cocc row))"

definition nonneg_ledger :: "(key_path \<Rightarrow> int option) \<Rightarrow> bool" where
  "nonneg_ledger L = (\<forall>k b. L k = Some b \<longrightarrow> 0 \<le> b)"

text \<open>
  The items an iteration over the keys of a dictionary visits, each key with the value found
  under it, and the records the export collects at each level.
\<close>

definition visited :: "('k, 'v) dict \<Rightarrow> ('k \<times> 'v) list" where
  "visited d = List.map_filter (\<lambda>k. map_option (Pair k) (map_of d k)) (keys d)"

definition month_rows :: "pyval \<Rightarrow> pyval \<Rightarrow> pyval \<Rightarrow> (pyval, pyval) dict \<Rightarrow> flat_record list" where
  "month_rows c n y months =
     concat (map (\<lambda>kv. if expected_shape c n y (fst kv) (snd kv)
                        then [(c, n, y, fst kv, snd kv)] else []) (visited months))"

definition year_rows :: "pyval \<Rightarrow> pyval \<Rightarrow> neighbourhood_series \<Rightarrow> flat_record list" where
  "year_rows c n series =
     concat (map (\<lambda>kv. month_rows c n (fst kv) (snd kv)) (visited (occurrences series)))"

definition neighbourhood_rows ::
    "pyval \<Rightarrow> (pyval, neighbourhood_series) dict \<Rightarrow> flat_record list" where
  "neighbourhood_rows c nbs = concat (map (\<lambda>kv. year_rows c (fst kv) (snd kv)) (visited nbs))"

definition exported_rows :: "CrimeData \<Rightarrow> flat_record list" where
  "exported_rows cd =
     concat (map (\<lambda>kv. neighbourhood_rows (fst kv) (snd kv)) (visited (crime_occurrences cd)))"

section \<open>Example data\<close>

text \<open>
  Stores and rows on which the theorems are run: a store with one series; the three raw rows
  of the spec's end-to-end example with the store they give for the range 2003-1 to 2003-3;
  rows of a processed file; a single row with a given count; a sequence of store operations;
  and a store with leaves of an unexpected shape.
\<close>

definition theft_store :: CrimeData where
  "theft_store = \<lparr>crime_occurrences =
      [(PyStr ''Theft'',
        [(PyStr ''X'', \<lparr>occurrences = [(PyInt 2003, [(PyInt 12, PyInt 2)])]\<rparr>)])]\<rparr>"

definition theft_rows :: "pyval list list" where
  "theft_rows =
     [[PyStr ''Theft'', PyInt 2003, PyInt 1, PyStr ''X''],
      [PyStr ''Theft'', PyInt 2003, PyInt 1, PyStr ''X''],
      [PyStr ''Theft'', PyInt 2003, PyInt 3, PyStr ''X'']]"

definition theft_result :: CrimeData where
  "theft_result = \<lparr>crime_occurrences =
      [(PyStr ''Theft'',
        [(PyStr ''X'',
          \<lparr>occurrences =
             [(PyInt 2003, [(PyInt 1, PyInt 2), (PyInt 3, PyInt 1), (PyInt 2, PyInt 0)])]\<rparr>)])]\<rparr>"

definition theft_six :: CrimeData where
  "theft_six = \<lparr>crime_occurrences =
      [(PyStr ''Theft'',
        [(PyStr ''X'', \<lparr>occurrences = [(PyInt 2003, [(PyInt 1, PyInt 6)])]\<rparr>)])]\<rparr>"

definition processed_rows :: "pyval list list" where
  "processed_rows =
     [[PyStr ''Theft'', PyStr ''X'', PyInt 2003, PyInt 1, PyInt 5],
      [PyStr ''Theft'', PyStr ''X'', PyInt 1990, PyInt 14, PyInt 0],
      [PyStr ''Theft'', PyStr ''X'', PyInt 2003, PyInt 1, PyInt 2]]"

definition processed_result :: CrimeData where
  "processed_result = \<lparr>crime_occurrences =
      [(PyStr ''Theft'',
        [(PyStr ''X'',
          \<lparr>occurrences =
             [(PyInt 2003, [(PyInt 1, PyInt 7)]), (PyInt 1990, [(PyInt 14, PyInt 0)])]\<rparr>)])]\<rparr>"

definition one_row :: "int \<Rightarrow> pyval list list" where
  "one_row a = [[PyStr ''Theft'', PyStr ''X'', PyInt 2003, PyInt 1, PyInt a]]"

definition one_count :: "int \<Rightarrow> CrimeData" where
  "one_count a = \<lparr>crime_occurrences =
      [(PyStr ''Theft'',
        [(PyStr ''X'', \<lparr>occurrences = [(PyInt 2003, [(PyInt 1, PyInt a)])]\<rparr>)])]\<rparr>"

definition theft_ops :: "store_op list" where
  "theft_ops =
     [Increment (PyStr ''Theft'') (PyStr ''X'') (PyInt 2003) (PyInt 1) 2,
      FillGaps (2003, 1) (2003, 3),
      Increment (PyStr ''Theft'') (PyStr ''X'') (PyInt 2003) (PyInt 3) 1]"

definition theft_filled :: CrimeData where
  "theft_filled = \<lparr>crime_occurrences =
      [(PyStr ''Theft'',
        [(PyStr ''X'',
          \<lparr>occurrences =
             [(PyInt 2003, [(PyInt 1, PyInt 2), (PyInt 2, PyInt 0), (PyInt 3, PyInt 1)])]\<rparr>)])]\<rparr>"

definition mixed_store :: CrimeData where
  "mixed_store = \<lparr>crime_occurrences =
      [(PyStr ''Theft'',
        [(PyStr ''X'', \<lparr>occurrences = [(PyInt 2003, [(PyInt 1, PyInt 2), (PyInt 2, PyNone)])]\<rparr>),
         (PyNone, \<lparr>occurrences = [(PyInt 2003, [(PyInt 1, PyInt 4)])]\<rparr>)]),
       (PyStr ''Mischief'',
        [(PyStr ''X'', \<lparr>occurrences = [(PyStr ''2003'', [(PyInt 1, PyInt 1)]),
                                         (PyInt 2004, [(PyInt 3, PyInt 0)])]\<rparr>)])]\<rparr>"

section \<open>Properties of the range predicate\<close>

lemma mk_date_first_of_month:
  "valid_year_month ym \<Longrightarrow>
     mk_date (PyInt (fst ym)) (PyInt (snd ym)) (PyInt 1) = Inr (Date (fst ym) (snd ym) 1)"
  by (simp add: valid_year_month_def mk_date_def c_int_def days_in_month_def)

lemma date_le_position:
  "1 \<le> snd a \<Longrightarrow> snd a \<le> 12 \<Longrightarrow> 1 \<le> snd b \<Longrightarrow> snd b \<le> 12 \<Longrightarrow>
     date_le (Date (fst a) (snd a) 1) (Date (fst b) (snd b) 1)
       = (calendar_position a \<le> calendar_position b)"
  by (auto simp: date_le_def calendar_position_def)

lemma check_date_in_range_valid:
  assumes "valid_year_month s" "valid_year_month e" "valid_year_month d"
  shows "check_date_in_range (py_year_month s) (py_year_month e) (py_year_month d)
           = Inr (calendar_position s \<le> calendar_position d
                  \<and> calendar_position d \<le> calendar_position e)"
  using assms
  by (simp add: check_date_in_range_def py_year_month_def mk_date_first_of_month
        date_le_position valid_year_month_def)

lemma mk_date_bad_month:
  "month_out_of_calendar (y, m) \<Longrightarrow> \<exists>e. mk_date y m (PyInt 1) = Inl e"
  by (cases "c_int y"; cases m)
     (auto simp: month_out_of_calendar_def mk_date_def c_int_def split: if_splits)

text \<open>
  C2. For valid bounds and a valid candidate, \<^verbatim>\<open>check_date_in_range\<close> returns true
  exactly when the candidate's calendar position lies between the positions of the two
  bounds, both ends included; the five listed calls give true, true, false, true, true.
\<close>

theorem check_date_in_range_correct:
  "(valid_year_month s \<and> valid_year_month e \<and> valid_year_month d \<longrightarrow>
      check_date_in_range (py_year_month s) (py_year_month e) (py_year_month d)
        = Inr (calendar_position s \<le> calendar_position d
               \<and> calendar_position d \<le> calendar_position e))
   \<and> check_date_in_range (PyInt 2003, PyInt 1) (PyInt 2021, PyInt 11) (PyInt 2003, PyInt 1)
       = Inr True
   \<and> check_date_in_range (PyInt 2003, PyInt 1) (PyInt 2021, PyInt 11) (PyInt 2021, PyInt 11)
       = Inr True
   \<and> check_date_in_range (PyInt 2003, PyInt 1) (PyInt 2021, PyInt 11) (PyInt 2002, PyInt 12)
       = Inr False
   \<and> check_date_in_range (PyInt 2003, PyInt 1) (PyInt 2021, PyInt 11) (PyInt 2003, PyInt 12)
       = Inr True
   \<and> check_date_in_range (PyInt 2003, PyInt 11) (PyInt 2004, PyInt 2) (PyInt 2003, PyInt 12)
       = Inr True"
proof -
  have ex: "\<And>a b c d e f. valid_year_month (a, b) \<Longrightarrow> valid_year_month (c, d) \<Longrightarrow>
      valid_year_month (e, f) \<Longrightarrow>
      check_date_in_range (PyInt a, PyInt b) (PyInt c, PyInt d) (PyInt e, PyInt f)
        = Inr (calendar_position (a, b) \<le> calendar_position (e, f)
               \<and> calendar_position (e, f) \<le> calendar_position (c, d))"
    using check_date_in_range_valid [of "(a, b)" "(c, d)" "(e, f)" for a b c d e f]
    by (simp add: py_year_month_def)
  have examples:
    "check_date_in_range (PyInt 2003, PyInt 1) (PyInt 2021, PyInt 11) (PyInt 2003, PyInt 1)
       = Inr True"
    "check_date_in_range (PyInt 2003, PyInt 1) (PyInt 2021, PyInt 11) (PyInt 2021, PyInt 11)
       = Inr True"
    "check_date_in_range (PyInt 2003, PyInt 1) (PyInt 2021, PyInt 11) (PyInt 2002, PyInt 12)
       = Inr False"
    "check_date_in_range (PyInt 2003, PyInt 1) (PyInt 2021, PyInt 11) (PyInt 2003, PyInt 12)
       = Inr True"
    "check_date_in_range (PyInt 2003, PyInt 11) (PyInt 2004, PyInt 2) (PyInt 2003, PyInt 12)
       = Inr True"
    by (simp_all add: ex valid_year_month_def calendar_position_def)
  show ?thesis
    using check_date_in_range_valid [of s e d] examples by simp
qed

theorem check_date_in_range_correct_witness:
  "valid_year_month (2003, 11) \<and> valid_year_month (2004, 2) \<and> valid_year_month (2004, 1)
   \<and> check_date_in_range (py_year_month (2003, 11)) (py_year_month (2004, 2))
        (py_year_month (2004, 1)) = Inr True
   \<and> calendar_position (2003, 11) \<le> calendar_position (2004, 1)
   \<and> calendar_position (2004, 1) \<le> calendar_position (2004, 2)"
  using check_date_in_range_correct [of "(2003, 11)" "(2004, 2)" "(2004, 1)"]
  by (simp add: valid_year_month_def calendar_position_def)

text \<open>
  C9. When the month of any of the three arguments lies outside 1..12, the call returns no
  boolean: it ends with the exception of the first date construction that fails, and
  \<^verbatim>\<open>check_date_in_range\<close> has no check of its own before these constructions.
\<close>

theorem check_date_in_range_invalid_month:
  assumes "month_out_of_calendar s \<or> month_out_of_calendar e \<or> month_out_of_calendar d"
  shows "\<exists>err. check_date_in_range s e d = Inl err
           \<and> (mk_date (fst s) (snd s) (PyInt 1) = Inl err
              \<or> mk_date (fst e) (snd e) (PyInt 1) = Inl err
              \<or> mk_date (fst d) (snd d) (PyInt 1) = Inl err)"
proof -
  obtain rs where rs: "mk_date (fst s) (snd s) (PyInt 1) = rs" by simp
  obtain re where re: "mk_date (fst e) (snd e) (PyInt 1) = re" by simp
  obtain rd where rd: "mk_date (fst d) (snd d) (PyInt 1) = rd" by simp
  have bad: "(\<exists>x. rs = Inl x) \<or> (\<exists>x. re = Inl x) \<or> (\<exists>x. rd = Inl x)"
    using assms mk_date_bad_month [of "fst s" "snd s"] mk_date_bad_month [of "fst e" "snd e"]
      mk_date_bad_month [of "fst d" "snd d"] rs re rd
    by auto
  show ?thesis
    unfolding check_date_in_range_def rs re rd
    using bad by (cases rs; cases re; cases rd) auto
qed

theorem check_date_in_range_invalid_month_witness:
  "month_out_of_calendar (PyInt 2003, PyInt 13)
   \<and> check_date_in_range (PyInt 2003, PyInt 1) (PyInt 2021, PyInt 11) (PyInt 2003, PyInt 13)
       = Inl ValueError"
  using check_date_in_range_invalid_month
          [of "(PyInt 2003, PyInt 1)" "(PyInt 2021, PyInt 11)" "(PyInt 2003, PyInt 13)"]
  by (simp add: month_out_of_calendar_def check_date_in_range_def mk_date_def c_int_def
        days_in_month_def)

section \<open>Properties of gap-filling\<close>

lemma map_of_map_values: "map_of (map_values f d) k = map_option f (map_of d k)"
  by (induction d) (auto simp: map_values_def)

lemma map_of_setitem: "map_of (setitem d k v) = (map_of d)(k \<mapsto> v)"
  by (simp add: setitem_def update_conv')

lemma series_get_ensure_month:
  "series_get (ensure_month ym nd) y m =
     (if y = PyInt (fst ym) \<and> m = PyInt (snd ym) \<and> series_get nd y m = None
      then Some (PyInt 0) else series_get nd y m)"
  by (auto simp: series_get_def ensure_month_def Let_def map_of_setitem split: option.splits)

lemma ensure_month_present:
  "series_get nd (PyInt (fst ym)) (PyInt (snd ym)) \<noteq> None \<Longrightarrow> ensure_month ym nd = nd"
  by (auto simp: series_get_def ensure_month_def Let_def split: option.splits)

lemma series_get_fold_ensure:
  "series_get (fold ensure_month yms nd) y m =
     (if series_get nd y m = None \<and> (\<exists>ym \<in> set yms. y = PyInt (fst ym) \<and> m = PyInt (snd ym))
      then Some (PyInt 0) else series_get nd y m)"
  by (induction yms arbitrary: nd) (auto simp: series_get_ensure_month)

lemma fold_ensure_all_present:
  "\<forall>ym \<in> set yms. series_get nd (PyInt (fst ym)) (PyInt (snd ym)) \<noteq> None \<Longrightarrow> fold ensure_month yms nd = nd"
  by (induction yms arbitrary: nd) (auto simp: ensure_month_present)

lemma fold_ensure_idem:
  "fold ensure_month yms (fold ensure_month yms nd) = fold ensure_month yms nd"
  by (rule fold_ensure_all_present) (auto simp: series_get_fold_ensure)

lemma map_values_comp: "map_values f (map_values g d) = map_values (\<lambda>v. f (g v)) d"
  by (simp add: map_values_def)

text \<open>
  C7. Gap-filling is idempotent: filling a store twice with the same range gives the store
  that filling it once gives, for every store and every pair of bounds.
\<close>

theorem fill_gaps_idempotent:
  "fill_gaps (fill_gaps cd start end) start end = fill_gaps cd start end"
  by (simp add: fill_gaps_def map_values_comp fold_ensure_idem)

lemma pair_present_fill_gaps:
  "pair_present (fill_gaps cd s e) c n = pair_present cd c n"
  by (auto simp: pair_present_def fill_gaps_def map_of_map_values split: option.splits)

lemma get_count_fill_gaps:
  "get_count (fill_gaps cd s e) c n y m =
     (if pair_present cd c n \<and> get_count cd c n y m = None
         \<and> (\<exists>ym \<in> set (months_in_range s e). y = PyInt (fst ym) \<and> m = PyInt (snd ym))
      then Some (PyInt 0) else get_count cd c n y m)"
  by (auto simp: get_count_def pair_present_def fill_gaps_def map_of_map_values
        series_get_fold_ensure split: option.splits)

lemma year_month_at_position:
  "1 \<le> m \<Longrightarrow> m \<le> 12 \<Longrightarrow> year_month_at (calendar_position (y, m)) = (y, m)"
  by (simp add: year_month_at_def calendar_position_def)

lemma year_month_le_position:
  "1 \<le> snd a \<Longrightarrow> snd a \<le> 12 \<Longrightarrow> 1 \<le> snd b \<Longrightarrow> snd b \<le> 12 \<Longrightarrow>
     year_month_le a b = (calendar_position a \<le> calendar_position b)"
  by (auto simp: year_month_le_def calendar_position_def)

lemma in_months_in_range:
  assumes "1 \<le> snd s" "snd s \<le> 12" "1 \<le> snd e" "snd e \<le> 12" "1 \<le> m" "m \<le> 12"
    "year_month_le s (y, m)" "year_month_le (y, m) e"
  shows "(y, m) \<in> set (months_in_range s e)"
proof -
  have "calendar_position s \<le> calendar_position (y, m)"
    "calendar_position (y, m) \<le> calendar_position e"
    using assms by (simp_all add: year_month_le_position [symmetric])
  then have "calendar_position (y, m) \<in> set [calendar_position s .. calendar_position e]"
    by simp
  then have "year_month_at (calendar_position (y, m)) \<in> set (months_in_range s e)"
    unfolding months_in_range_def by (simp only: set_map image_eqI)
  then show ?thesis using assms by (simp add: year_month_at_position)
qed

text \<open>
  C1. After gap-filling with bounds whose months are calendar months, every pair of crime type
  and neighbourhood that was present has an entry for every (year, month) of the range, the
  old count where there was one and 0 where there was none, also across the turn of a year;
  every entry that existed keeps its count; and a pair is present afterwards exactly when it
  was present before.
\<close>

theorem fill_gaps_postcondition:
  assumes "1 \<le> snd start" "snd start \<le> 12" "1 \<le> snd end" "snd end \<le> 12"
  shows "(pair_present cd c n \<and> 1 \<le> m \<and> m \<le> 12
            \<and> year_month_le start (y, m) \<and> year_month_le (y, m) end \<longrightarrow>
          get_count (fill_gaps cd start end) c n (PyInt y) (PyInt m)
            = Some (case get_count cd c n (PyInt y) (PyInt m) of None \<Rightarrow> PyInt 0 | Some v \<Rightarrow> v))
       \<and> (get_count cd c' n' y' m' = Some v' \<longrightarrow>
          get_count (fill_gaps cd start end) c' n' y' m' = Some v')
       \<and> pair_present (fill_gaps cd start end) c'' n'' = pair_present cd c'' n''"
proof (intro conjI impI)
  assume a: "pair_present cd c n \<and> 1 \<le> m \<and> m \<le> 12
            \<and> year_month_le start (y, m) \<and> year_month_le (y, m) end"
  then have "(y, m) \<in> set (months_in_range start end)"
    using assms by (simp add: in_months_in_range)
  then have "\<exists>ym \<in> set (months_in_range start end). PyInt y = PyInt (fst ym) \<and> PyInt m = PyInt (snd ym)"
    by force
  then show "get_count (fill_gaps cd start end) c n (PyInt y) (PyInt m)
            = Some (case get_count cd c n (PyInt y) (PyInt m) of None \<Rightarrow> PyInt 0 | Some v \<Rightarrow> v)"
    using a by (simp add: get_count_fill_gaps split: option.splits)
next
  assume "get_count cd c' n' y' m' = Some v'"
  then show "get_count (fill_gaps cd start end) c' n' y' m' = Some v'"
    by (simp add: get_count_fill_gaps)
next
  show "pair_present (fill_gaps cd start end) c'' n'' = pair_present cd c'' n''"
    by (rule pair_present_fill_gaps)
qed

theorem fill_gaps_postcondition_witness:
  "pair_present theft_store (PyStr ''Theft'') (PyStr ''X'')
   \<and> year_month_le (2003, 11) (2004, 1) \<and> year_month_le (2004, 1) (2004, 2)
   \<and> get_count (fill_gaps theft_store (2003, 11) (2004, 2)) (PyStr ''Theft'') (PyStr ''X'')
        (PyInt 2004) (PyInt 1) = Some (PyInt 0)
   \<and> get_count theft_store (PyStr ''Theft'') (PyStr ''X'') (PyInt 2003) (PyInt 12) = Some (PyInt 2)
   \<and> get_count (fill_gaps theft_store (2003, 11) (2004, 2)) (PyStr ''Theft'') (PyStr ''X'')
        (PyInt 2003) (PyInt 12) = Some (PyInt 2)
   \<and> \<not> pair_present (fill_gaps theft_store (2003, 11) (2004, 2)) (PyStr ''Theft'') (PyStr ''Y'')"
  using fill_gaps_postcondition [of "(2003, 11)" "(2004, 2)" theft_store "PyStr ''Theft''"
      "PyStr ''X''" 1 2004 "PyStr ''Theft''" "PyStr ''X''" "PyInt 2003" "PyInt 12" "PyInt 2"
      "PyStr ''Theft''" "PyStr ''Y''"]
  by (simp add: theft_store_def pair_present_def year_month_le_def get_count_def series_get_def)

section \<open>Properties of increment\<close>

text \<open>An increment writes the sum of the count it finds and the amount.\<close>

lemma increment_crime_put:
  "increment_crime cd c n y m a =
     py_bind (py_add (current_count cd c n y m) a) (\<lambda>t. Inr (put_count cd c n y m t))"
  by (cases "py_add (current_count cd c n y m) a")
     (auto simp: increment_crime_def increment_data_def put_count_def current_count_def
        get_count_def series_get_def Let_def new_neighbourhood_series_def split: option.splits)

lemma get_count_put_count:
  "get_count (put_count cd c n y m v) c' n' y' m' =
     (if c' = c \<and> n' = n \<and> y' = y \<and> m' = m then Some v else get_count cd c' n' y' m')"
  by (auto simp: put_count_def get_count_def series_get_def Let_def map_of_setitem
        new_neighbourhood_series_def split: option.splits)

lemma setitem_twice: "setitem (setitem d k v) k w = setitem d k w"
  by (simp add: setitem_def)

lemma put_count_twice:
  "put_count (put_count cd c n y m v) c n y m w = put_count cd c n y m w"
  by (simp add: put_count_def Let_def map_of_setitem setitem_twice)

text \<open>Writing a count keeps the keys unique at every level.\<close>

lemma set_setitem: "set (setitem d k v) \<subseteq> insert (k, v) (set d)"
  unfolding setitem_def by (induction d) auto

lemma distinct_setitem: "distinct (keys d) \<Longrightarrow> distinct (keys (setitem d k v))"
  by (simp add: keys_def setitem_def distinct_update)

lemma lookup_all: "\<forall>kv \<in> set d. P (snd kv) \<Longrightarrow> map_of d k = Some v \<Longrightarrow> P v"
  by (auto dest!: map_of_SomeD)

lemma setitem_all:
  "\<forall>kv \<in> set d. P (snd kv) \<Longrightarrow> P v \<Longrightarrow> \<forall>kv \<in> set (setitem d k v). P (snd kv)"
  using set_setitem [of d k v] by auto

lemma unique_series_put:
  assumes "unique_series nd"
  shows "unique_series (nd\<lparr>occurrences := setitem (occurrences nd) y
           (setitem (case map_of (occurrences nd) y of None \<Rightarrow> [] | Some ms \<Rightarrow> ms) m v)\<rparr>)"
proof -
  let ?months = "case map_of (occurrences nd) y of None \<Rightarrow> [] | Some ms \<Rightarrow> ms"
  have all: "\<forall>ym \<in> set (occurrences nd). (distinct \<circ> keys) (snd ym)"
    using assms by (simp add: unique_series_def)
  have "(distinct \<circ> keys) ?months"
  proof (cases "map_of (occurrences nd) y")
    case None
    then show ?thesis by (simp add: keys_def)
  next
    case (Some ms)
    then show ?thesis using lookup_all [where P = "distinct \<circ> keys", OF all Some] by simp
  qed
  then have "(distinct \<circ> keys) (setitem ?months m v)"
    by (simp add: distinct_setitem)
  then have "\<forall>ym \<in> set (setitem (occurrences nd) y (setitem ?months m v)).
      (distinct \<circ> keys) (snd ym)"
    by (rule setitem_all [where P = "distinct \<circ> keys", OF all])
  then show ?thesis
    using assms by (simp add: unique_series_def distinct_setitem)
qed

lemma unique_neighbourhoods_put:
  assumes "unique_neighbourhoods nbs"
    and "\<And>nd. unique_series nd \<Longrightarrow> unique_series (f nd)"
  shows "unique_neighbourhoods (setitem nbs n
           (f (case map_of nbs n of None \<Rightarrow> new_neighbourhood_series | Some x \<Rightarrow> x)))"
proof -
  let ?nd = "case map_of nbs n of None \<Rightarrow> new_neighbourhood_series | Some x \<Rightarrow> x"
  have all: "\<forall>nn \<in> set nbs. unique_series (snd nn)"
    using assms(1) by (simp add: unique_neighbourhoods_def)
  have "unique_series ?nd"
  proof (cases "map_of nbs n")
    case None
    then show ?thesis by (simp add: unique_series_def new_neighbourhood_series_def keys_def)
  next
    case (Some x)
    then show ?thesis using lookup_all [where P = unique_series, OF all Some] by simp
  qed
  then have "unique_series (f ?nd)" by (rule assms(2))
  then have "\<forall>nn \<in> set (setitem nbs n (f ?nd)). unique_series (snd nn)"
    by (rule setitem_all [where P = unique_series, OF all])
  then show ?thesis
    using assms(1) by (simp add: unique_neighbourhoods_def distinct_setitem)
qed

lemma unique_keys_put_count:
  assumes "unique_keys cd"
  shows "unique_keys (put_count cd c n y m v)"
proof -
  let ?nbs = "case map_of (crime_occurrences cd) c of None \<Rightarrow> [] | Some x \<Rightarrow> x"
  let ?f = "\<lambda>nd. nd\<lparr>occurrences := setitem (occurrences nd) y
           (setitem (case map_of (occurrences nd) y of None \<Rightarrow> [] | Some ms \<Rightarrow> ms) m v)\<rparr>"
  let ?nd = "case map_of ?nbs n of None \<Rightarrow> new_neighbourhood_series | Some x \<Rightarrow> x"
  have all: "\<forall>cn \<in> set (crime_occurrences cd). unique_neighbourhoods (snd cn)"
    using assms by (simp add: unique_keys_def)
  have "unique_neighbourhoods ?nbs"
  proof (cases "map_of (crime_occurrences cd) c")
    case None
    then show ?thesis by (simp add: unique_neighbourhoods_def keys_def)
  next
    case (Some x)
    then show ?thesis using lookup_all [where P = unique_neighbourhoods, OF all Some] by simp
  qed
  then have "unique_neighbourhoods (setitem ?nbs n (?f ?nd))"
    by (rule unique_neighbourhoods_put) (rule unique_series_put)
  then have "\<forall>cn \<in> set (setitem (crime_occurrences cd) c (setitem ?nbs n (?f ?nd))).
      unique_neighbourhoods (snd cn)"
    by (rule setitem_all [where P = unique_neighbourhoods, OF all])
  then show ?thesis
    using assms by (simp add: unique_keys_def put_count_def Let_def distinct_setitem)
qed

lemma increment_many_sum:
  assumes "current_count cd c n y m = PyInt b"
  shows "increment_many cd c n y m (a # as) = Inr (put_count cd c n y m (PyInt (b + a + sum_list as)))"
  using assms
proof (induction as arbitrary: cd a b)
  case Nil
  then show ?case by (simp add: increment_many_def increment_crime_put py_add_def)
next
  case (Cons x xs)
  have step: "increment_crime cd c n y m (PyInt a) = Inr (put_count cd c n y m (PyInt (b + a)))"
    using Cons.prems by (simp add: increment_crime_put py_add_def)
  have cur: "current_count (put_count cd c n y m (PyInt (b + a))) c n y m = PyInt (b + a)"
    by (simp add: current_count_def get_count_put_count)
  have "increment_many cd c n y m (a # x # xs)
          = increment_many (put_count cd c n y m (PyInt (b + a))) c n y m (x # xs)"
    using step by (simp add: increment_many_def)
  also have "\<dots> = Inr (put_count (put_count cd c n y m (PyInt (b + a))) c n y m (PyInt (b + a + x + sum_list xs)))"
    using Cons.IH [OF cur] .
  finally show ?case by (simp add: put_count_twice add.assoc)
qed

text \<open>The definitions by which the examples are evaluated.\<close>

lemmas eval_defs = CrimeData_class_def build_crime_data_class_def raw_row_step_def processed_row_step_def
  row_get_def check_date_in_range_def mk_date_def c_int_def days_in_month_def py_year_month_def
  date_le_def increment_crime_def increment_data_def py_add_def setitem_def fill_gaps_def
  months_in_range_def calendar_position_def year_month_at_def ensure_month_def map_values_def
  Let_def new_CrimeData_def new_neighbourhood_series_def get_count_def series_get_def
  row_key_def row_in_range_def raw_row_ok_def

text \<open>
  C6. Any non-empty sequence of increments at one key path, on a store whose count there is
  an integer or absent, ends with the sum of the amounts added to that count; every
  reordering of the amounts ends in the same store; and a store whose keys are unique at
  every level keeps them unique, so the increments accumulate in a single entry.
\<close>

theorem increment_accumulates:
  assumes "current_count cd c n y m = PyInt b" and "amounts \<noteq> []"
  shows "\<exists>cd'. increment_many cd c n y m amounts = Inr cd'
           \<and> get_count cd' c n y m = Some (PyInt (b + sum_list amounts))
           \<and> (mset amounts' = mset amounts \<longrightarrow> increment_many cd c n y m amounts' = Inr cd')
           \<and> (unique_keys cd \<longrightarrow> unique_keys cd')"
proof -
  obtain a as where am: "amounts = a # as" using assms(2) by (cases amounts) auto
  have r: "increment_many cd c n y m amounts = Inr (put_count cd c n y m (PyInt (b + sum_list amounts)))"
    using increment_many_sum [OF assms(1), of a as] am by (simp add: add.assoc)
  have perm: "increment_many cd c n y m amounts' = Inr (put_count cd c n y m (PyInt (b + sum_list amounts)))"
    if "mset amounts' = mset amounts"
  proof -
    have ne: "amounts' \<noteq> []" using that assms(2) by auto
    then obtain a' as' where am': "amounts' = a' # as'" by (cases amounts') auto
    have "sum_list amounts' = sum_list amounts"
      using that by (metis sum_mset_sum_list)
    then show ?thesis
      using increment_many_sum [OF assms(1), of a' as'] am' by (simp add: add.assoc)
  qed
  show ?thesis
    using r perm by (auto simp: get_count_put_count unique_keys_put_count)
qed

theorem increment_accumulates_witness:
  "current_count new_CrimeData (PyStr ''Theft'') (PyStr ''X'') (PyInt 2003) (PyInt 1) = PyInt 0
   \<and> mset [3, 1, 2] = mset [1, 2, 3 :: int]
   \<and> unique_keys new_CrimeData
   \<and> increment_many new_CrimeData (PyStr ''Theft'') (PyStr ''X'') (PyInt 2003) (PyInt 1) [1, 2, 3]
       = Inr theft_six
   \<and> increment_many new_CrimeData (PyStr ''Theft'') (PyStr ''X'') (PyInt 2003) (PyInt 1) [3, 1, 2]
       = Inr theft_six
   \<and> get_count theft_six (PyStr ''Theft'') (PyStr ''X'') (PyInt 2003) (PyInt 1) = Some (PyInt 6)
   \<and> unique_keys theft_six"
proof -
  have h1: "current_count new_CrimeData (PyStr ''Theft'') (PyStr ''X'') (PyInt 2003) (PyInt 1)
              = PyInt 0"
    by (simp add: current_count_def eval_defs)
  have h2: "mset [3, 1, 2] = mset [1, 2, 3 :: int]" by simp
  have h3: "unique_keys new_CrimeData"
    by (simp add: unique_keys_def new_CrimeData_def keys_def)
  have ev: "increment_many new_CrimeData (PyStr ''Theft'') (PyStr ''X'') (PyInt 2003) (PyInt 1)
              [1, 2, 3] = Inr theft_six"
    by (simp add: increment_many_def theft_six_def eval_defs)
  from increment_accumulates [OF h1, of "[1, 2, 3]" "[3, 1, 2]"] ev h2 h3
  have "get_count theft_six (PyStr ''Theft'') (PyStr ''X'') (PyInt 2003) (PyInt 1)
          = Some (PyInt (0 + sum_list [1, 2, 3]))
        \<and> increment_many new_CrimeData (PyStr ''Theft'') (PyStr ''X'') (PyInt 2003) (PyInt 1)
            [3, 1, 2] = Inr theft_six
        \<and> unique_keys theft_six"
    by auto
  then show ?thesis using h1 h2 h3 ev by simp
qed

section \<open>Properties of ingestion\<close>

text \<open>Increments on a store that agrees with a ledger.\<close>

lemma CrimeData_class_sel:
  "new_store CrimeData_class = new_CrimeData"
  "increment_crime_of CrimeData_class = increment_crime"
  "fill_gaps_of CrimeData_class cd s e = Inr (fill_gaps cd s e)"
  by (simp_all add: CrimeData_class_def)

lemma agrees_empty: "agrees new_CrimeData Map.empty"
  by (simp add: agrees_def new_CrimeData_def get_count_def)

lemma agrees_current:
  "agrees cd L \<Longrightarrow> current_count cd c n y m = PyInt (case L (c, n, y, m) of None \<Rightarrow> 0 | Some b \<Rightarrow> b)"
  by (auto simp: agrees_def current_count_def split: option.splits)

lemma agrees_put:
  "agrees cd L \<Longrightarrow> agrees (put_count cd c n y m (PyInt v)) (L((c, n, y, m) \<mapsto> v))"
  by (auto simp: agrees_def get_count_put_count)

lemma increment_agrees:
  assumes "agrees cd L" "increment_crime cd c n y m a = Inr cd'"
  shows "\<exists>j. a = PyInt j \<and> agrees cd' (add_event ((c, n, y, m), j) L)"
proof -
  let ?b = "case L (c, n, y, m) of None \<Rightarrow> 0 | Some b \<Rightarrow> b"
  have cur: "current_count cd c n y m = PyInt ?b" using assms(1) by (rule agrees_current)
  obtain j where j: "a = PyInt j"
    using assms(2) cur by (cases a) (auto simp: increment_crime_put py_add_def)
  then have "cd' = put_count cd c n y m (PyInt (?b + j))"
    using assms(2) cur by (simp add: increment_crime_put py_add_def)
  then show ?thesis using j agrees_put [OF assms(1)] by (simp add: add_event_def)
qed

lemma increment_int_total:
  assumes "agrees cd L"
  shows "\<exists>cd'. increment_crime cd c n y m (PyInt j) = Inr cd'"
  using agrees_current [OF assms] by (simp add: increment_crime_put py_add_def)

lemma fold_add_event:
  "fold add_event es L k =
     (if filter (\<lambda>e. fst e = k) es = [] then L k
      else Some ((case L k of None \<Rightarrow> 0 | Some b \<Rightarrow> b)
                 + sum_list (map snd (filter (\<lambda>e. fst e = k) es))))"
  by (induction es arbitrary: L) (auto simp: add_event_def split: option.splits)

lemma py_bind_Inr: "py_bind x f = Inr r \<longleftrightarrow> (\<exists>v. x = Inr v \<and> f v = Inr r)"
  by (cases x) auto

subsection \<open>Raw mode\<close>

lemma raw_step_Inr:
  assumes "raw_row_step K cct cy cm cn s e row cd = Inr cd'"
  shows "(case (if row_in_range cy cm s e row then row_key cct cy cm cn row else None) of
            None \<Rightarrow> Inr cd | Some k \<Rightarrow> increment_at K (k, PyInt 1) cd) = Inr cd'"
proof -
  from assms obtain y m b where ym: "row_get row cy = Inr y" "row_get row cm = Inr m"
    and chk: "check_date_in_range (py_year_month s) (py_year_month e) (y, m) = Inr b"
    and rest: "(if b then
         py_bind (row_get row cct) (\<lambda>crime.
         py_bind (row_get row cn) (\<lambda>neighbourhood.
         py_bind (row_get row cy) (\<lambda>year.
         py_bind (row_get row cm) (\<lambda>month.
           increment_crime_of K cd crime neighbourhood year month (PyInt 1)))))
       else Inr cd) = Inr cd'"
    unfolding raw_row_step_def py_bind_Inr by blast
  show ?thesis
  proof (cases b)
    case False
    then show ?thesis using rest ym chk by (simp add: row_in_range_def)
  next
    case True
    then obtain c n where cn: "row_get row cct = Inr c" "row_get row cn = Inr n"
      and inc: "increment_crime_of K cd c n y m (PyInt 1) = Inr cd'"
      using rest ym by (auto simp: py_bind_Inr)
    show ?thesis
      using True ym chk cn inc by (simp add: row_in_range_def row_key_def increment_at_def)
  qed
qed

lemma raw_step_ok:
  assumes "raw_row_ok cct cy cm cn s e row"
  shows "raw_row_step K cct cy cm cn s e row cd =
           (case (if row_in_range cy cm s e row then row_key cct cy cm cn row else None) of
              None \<Rightarrow> Inr cd | Some k \<Rightarrow> increment_at K (k, PyInt 1) cd)"
proof -
  from assms obtain c n y m b where
    k: "row_get row cct = Inr c" "row_get row cn = Inr n" "row_get row cy = Inr y"
       "row_get row cm = Inr m"
    and chk: "check_date_in_range (py_year_month s) (py_year_month e) (y, m) = Inr b"
    by (auto simp: raw_row_ok_def row_key_def split: option.splits sum.splits)
  show ?thesis
    using k chk by (simp add: raw_row_step_def row_in_range_def row_key_def increment_at_def)
qed

lemma raw_loop_Inr:
  "for_loop rows (raw_row_step K cct cy cm cn s e) cd = Inr cd' \<Longrightarrow>
     for_loop (map (\<lambda>k. (k, PyInt 1)) (in_range_keys cct cy cm cn s e rows)) (increment_at K) cd
       = Inr cd'"
proof (induction rows arbitrary: cd)
  case Nil
  then show ?case by (simp add: in_range_keys_def)
next
  case (Cons row rows)
  from Cons.prems obtain cd1 where
    st: "raw_row_step K cct cy cm cn s e row cd = Inr cd1"
    and lp: "for_loop rows (raw_row_step K cct cy cm cn s e) cd1 = Inr cd'"
    by (auto simp: py_bind_Inr)
  show ?case
    using raw_step_Inr [OF st] Cons.IH [OF lp]
    by (auto simp: in_range_keys_def split: option.splits if_splits)
qed

lemma raw_loop_ok:
  "\<forall>row \<in> set rows. raw_row_ok cct cy cm cn s e row \<Longrightarrow>
     for_loop rows (raw_row_step K cct cy cm cn s e) cd =
       for_loop (map (\<lambda>k. (k, PyInt 1)) (in_range_keys cct cy cm cn s e rows)) (increment_at K) cd"
proof (induction rows arbitrary: cd)
  case Nil
  then show ?case by (simp add: in_range_keys_def)
next
  case (Cons row rows)
  have ih: "for_loop rows (raw_row_step K cct cy cm cn s e) =
       for_loop (map (\<lambda>k. (k, PyInt 1)) (in_range_keys cct cy cm cn s e rows)) (increment_at K)"
    using Cons by auto
  have st: "raw_row_step K cct cy cm cn s e row cd =
           (case (if row_in_range cy cm s e row then row_key cct cy cm cn row else None) of
              None \<Rightarrow> Inr cd | Some k \<Rightarrow> increment_at K (k, PyInt 1) cd)"
    using Cons.prems by (simp add: raw_step_ok)
  show ?case
    by (simp add: st ih in_range_keys_def split: option.splits)
qed

text \<open>
  C3. In raw mode the function does to the store what the spec says: starting from a new
  store it increments by exactly 1 at the key path of each row whose (year, month) lies in
  the caller's range, in the order of the rows and skipping the others, then calls
  \<^verbatim>\<open>fill_gaps\<close> once, with the same range, on the store all rows have gone into. A call
  that returns has done so, and on rows that have the four cells and a (year, month) the
  date type accepts the call is this computation.
\<close>

theorem raw_mode_pipeline:
  "(build_crime_data_class K rows cct cy cm cn False cocc s e = Inr cd \<longrightarrow>
      py_bind
        (for_loop (map (\<lambda>k. (k, PyInt 1)) (in_range_keys cct cy cm cn s e rows))
           (increment_at K) (new_store K))
        (\<lambda>ingested. fill_gaps_of K ingested s e) = Inr cd)
   \<and> ((\<forall>row \<in> set rows. raw_row_ok cct cy cm cn s e row) \<longrightarrow>
        build_crime_data_class K rows cct cy cm cn False cocc s e =
          py_bind
            (for_loop (map (\<lambda>k. (k, PyInt 1)) (in_range_keys cct cy cm cn s e rows))
               (increment_at K) (new_store K))
            (\<lambda>ingested. fill_gaps_of K ingested s e))"
proof (intro conjI impI)
  assume "build_crime_data_class K rows cct cy cm cn False cocc s e = Inr cd"
  then obtain ing where lp: "for_loop rows (raw_row_step K cct cy cm cn s e) (new_store K) = Inr ing"
    and f: "fill_gaps_of K ing s e = Inr cd"
    by (auto simp: build_crime_data_class_def py_bind_Inr)
  show "py_bind
        (for_loop (map (\<lambda>k. (k, PyInt 1)) (in_range_keys cct cy cm cn s e rows))
           (increment_at K) (new_store K))
        (\<lambda>ingested. fill_gaps_of K ingested s e) = Inr cd"
    using raw_loop_Inr [OF lp] f by simp
next
  assume "\<forall>row \<in> set rows. raw_row_ok cct cy cm cn s e row"
  then show "build_crime_data_class K rows cct cy cm cn False cocc s e =
          py_bind
            (for_loop (map (\<lambda>k. (k, PyInt 1)) (in_range_keys cct cy cm cn s e rows))
               (increment_at K) (new_store K))
            (\<lambda>ingested. fill_gaps_of K ingested s e)"
    by (simp add: build_crime_data_class_def raw_loop_ok)
qed

theorem raw_mode_pipeline_witness:
  "list_all (raw_row_ok 0 1 2 3 (2003, 1) (2003, 3)) theft_rows
   \<and> in_range_keys 0 1 2 3 (2003, 1) (2003, 3) theft_rows
       = [(PyStr ''Theft'', PyStr ''X'', PyInt 2003, PyInt 1),
          (PyStr ''Theft'', PyStr ''X'', PyInt 2003, PyInt 1),
          (PyStr ''Theft'', PyStr ''X'', PyInt 2003, PyInt 3)]
   \<and> in_range_keys 0 1 2 3 (2003, 2) (2003, 3) theft_rows
       = [(PyStr ''Theft'', PyStr ''X'', PyInt 2003, PyInt 3)]
   \<and> build_crime_data_class CrimeData_class theft_rows 0 1 2 3 False None (2003, 1) (2003, 3)
       = Inr theft_result"
proof -
  have ok: "list_all (raw_row_ok 0 1 2 3 (2003, 1) (2003, 3)) theft_rows"
    by (simp add: theft_rows_def eval_defs)
  then have ok': "\<forall>row \<in> set theft_rows. raw_row_ok 0 1 2 3 (2003, 1) (2003, 3) row"
    by (simp add: list_all_iff)
  have ks: "in_range_keys 0 1 2 3 (2003, 1) (2003, 3) theft_rows
       = [(PyStr ''Theft'', PyStr ''X'', PyInt 2003, PyInt 1),
          (PyStr ''Theft'', PyStr ''X'', PyInt 2003, PyInt 1),
          (PyStr ''Theft'', PyStr ''X'', PyInt 2003, PyInt 3)]"
    "in_range_keys 0 1 2 3 (2003, 2) (2003, 3) theft_rows
       = [(PyStr ''Theft'', PyStr ''X'', PyInt 2003, PyInt 3)]"
    by (simp_all add: in_range_keys_def theft_rows_def eval_defs)
  have "build_crime_data_class CrimeData_class theft_rows 0 1 2 3 False None (2003, 1) (2003, 3)
       = py_bind
            (for_loop (map (\<lambda>k. (k, PyInt 1)) (in_range_keys 0 1 2 3 (2003, 1) (2003, 3) theft_rows))
               (increment_at CrimeData_class) (new_store CrimeData_class))
            (\<lambda>ingested. fill_gaps_of CrimeData_class ingested (2003, 1) (2003, 3))"
    using raw_mode_pipeline [of CrimeData_class theft_rows 0 1 2 3 None "(2003, 1)" "(2003, 3)"] ok'
    by blast
  also have "\<dots> = Inr theft_result"
    unfolding ks by (simp add: increment_at_def theft_result_def eval_defs)
  finally show ?thesis using ok ks by simp
qed

lemma raw_step_agrees:
  assumes "agrees cd L" "raw_row_step CrimeData_class cct cy cm cn s e row cd = Inr cd'"
  shows "agrees cd' (case raw_event cct cy cm cn s e row of None \<Rightarrow> L | Some ev \<Rightarrow> add_event ev L)"
proof -
  from assms(2) obtain y m b where ym: "row_get row cy = Inr y" "row_get row cm = Inr m"
    and chk: "check_date_in_range (py_year_month s) (py_year_month e) (y, m) = Inr b"
    and rest: "(if b then
         py_bind (row_get row cct) (\<lambda>crime.
         py_bind (row_get row cn) (\<lambda>neighbourhood.
         py_bind (row_get row cy) (\<lambda>year.
         py_bind (row_get row cm) (\<lambda>month.
           increment_crime cd crime neighbourhood year month (PyInt 1)))))
       else Inr cd) = Inr cd'"
    unfolding raw_row_step_def py_bind_Inr CrimeData_class_sel by blast
  show ?thesis
  proof (cases b)
    case False
    then have "cd' = cd" using rest by simp
    moreover have "raw_event cct cy cm cn s e row = None"
      using False ym chk by (simp add: raw_event_def row_in_range_def)
    ultimately show ?thesis using assms(1) by simp
  next
    case True
    then obtain c n where cn: "row_get row cct = Inr c" "row_get row cn = Inr n"
      and inc: "increment_crime cd c n y m (PyInt 1) = Inr cd'"
      using rest ym by (auto simp: py_bind_Inr)
    have ev: "raw_event cct cy cm cn s e row = Some ((c, n, y, m), 1)"
      using True ym chk cn by (simp add: raw_event_def row_in_range_def row_key_def)
    show ?thesis
      using increment_agrees [OF assms(1) inc] ev by simp
  qed
qed

lemma raw_loop_agrees:
  "agrees cd L \<Longrightarrow> for_loop rows (raw_row_step CrimeData_class cct cy cm cn s e) cd = Inr cd' \<Longrightarrow>
     agrees cd' (fold add_event (List.map_filter (raw_event cct cy cm cn s e) rows) L)"
proof (induction rows arbitrary: cd L)
  case Nil
  then show ?case by simp
next
  case (Cons row rows)
  from Cons.prems(2) obtain cd1 where
    st: "raw_row_step CrimeData_class cct cy cm cn s e row cd = Inr cd1"
    and lp: "for_loop rows (raw_row_step CrimeData_class cct cy cm cn s e) cd1 = Inr cd'"
    by (auto simp: py_bind_Inr)
  show ?case
    using Cons.IH [OF raw_step_agrees [OF Cons.prems(1) st] lp]
    by (cases "raw_event cct cy cm cn s e row") simp_all
qed

lemma raw_step_total:
  assumes "agrees cd L" "raw_row_ok cct cy cm cn s e row"
  shows "\<exists>cd'. raw_row_step CrimeData_class cct cy cm cn s e row cd = Inr cd'"
proof -
  from assms(2) obtain c n y m b where
    k: "row_get row cct = Inr c" "row_get row cn = Inr n" "row_get row cy = Inr y"
       "row_get row cm = Inr m"
    and chk: "check_date_in_range (py_year_month s) (py_year_month e) (y, m) = Inr b"
    by (auto simp: raw_row_ok_def row_key_def split: option.splits sum.splits)
  show ?thesis
    using k chk increment_int_total [OF assms(1), of c n y m 1]
    by (simp add: raw_row_step_def CrimeData_class_sel)
qed

lemma raw_loop_total:
  "agrees cd L \<Longrightarrow> \<forall>row \<in> set rows. raw_row_ok cct cy cm cn s e row \<Longrightarrow>
     \<exists>cd'. for_loop rows (raw_row_step CrimeData_class cct cy cm cn s e) cd = Inr cd'"
proof (induction rows arbitrary: cd L)
  case Nil
  then show ?case by simp
next
  case (Cons row rows)
  obtain cd1 where st: "raw_row_step CrimeData_class cct cy cm cn s e row cd = Inr cd1"
    using raw_step_total [OF Cons.prems(1), of cct cy cm cn s e row] Cons.prems(2) by auto
  show ?case
    using Cons.IH [OF raw_step_agrees [OF Cons.prems(1) st]] Cons.prems(2) st by simp
qed

lemma raw_events_filter:
  "filter (\<lambda>ev. fst ev = k) (List.map_filter (raw_event cct cy cm cn s e) rows)
     = map (\<lambda>row. (k, 1))
         (filter (\<lambda>row. row_in_range cy cm s e row \<and> row_key cct cy cm cn row = Some k) rows)"
  by (induction rows) (auto simp: raw_event_def split: option.splits)

lemma sum_list_const_one: "sum_list (map (\<lambda>x. 1::int) xs) = int (length xs)"
  by (induction xs) auto

text \<open>
  With the class modelled from the spec, the store that raw mode fills holds at every key
  path the number of rows in the range that carry it.
\<close>

lemma raw_mode_counts:
  "(build_crime_data_class CrimeData_class rows cct cy cm cn False cocc s e = Inr cd \<longrightarrow>
      (\<exists>ingested. cd = fill_gaps ingested s e
         \<and> (\<forall>c n y m. get_count ingested c n y m =
              (if filter (\<lambda>row. row_in_range cy cm s e row
                                \<and> row_key cct cy cm cn row = Some (c, n, y, m)) rows = []
               then None
               else Some (PyInt (int (length (filter (\<lambda>row. row_in_range cy cm s e row
                                \<and> row_key cct cy cm cn row = Some (c, n, y, m)) rows))))))))
   \<and> ((\<forall>row \<in> set rows. raw_row_ok cct cy cm cn s e row) \<longrightarrow>
        (\<exists>cd'. build_crime_data_class CrimeData_class rows cct cy cm cn False cocc s e = Inr cd'))"
proof (intro conjI impI)
  assume "build_crime_data_class CrimeData_class rows cct cy cm cn False cocc s e = Inr cd"
  then obtain ing where lp: "for_loop rows (raw_row_step CrimeData_class cct cy cm cn s e) new_CrimeData = Inr ing"
    and cd: "cd = fill_gaps ing s e"
    by (auto simp: build_crime_data_class_def py_bind_Inr CrimeData_class_sel)
  have "agrees ing (fold add_event (List.map_filter (raw_event cct cy cm cn s e) rows) Map.empty)"
    using raw_loop_agrees [OF agrees_empty lp] .
  then have "\<forall>c n y m. get_count ing c n y m =
              (if filter (\<lambda>row. row_in_range cy cm s e row
                                \<and> row_key cct cy cm cn row = Some (c, n, y, m)) rows = []
               then None
               else Some (PyInt (int (length (filter (\<lambda>row. row_in_range cy cm s e row
                                \<and> row_key cct cy cm cn row = Some (c, n, y, m)) rows)))))"
    by (simp add: agrees_def fold_add_event raw_events_filter sum_list_const_one comp_def)
  then show "\<exists>ingested. cd = fill_gaps ingested s e
         \<and> (\<forall>c n y m. get_count ingested c n y m =
              (if filter (\<lambda>row. row_in_range cy cm s e row
                                \<and> row_key cct cy cm cn row = Some (c, n, y, m)) rows = []
               then None
               else Some (PyInt (int (length (filter (\<lambda>row. row_in_range cy cm s e row
                                \<and> row_key cct cy cm cn row = Some (c, n, y, m)) rows))))))"
    using cd by blast
next
  assume "\<forall>row \<in> set rows. raw_row_ok cct cy cm cn s e row"
  then obtain ing where "for_loop rows (raw_row_step CrimeData_class cct cy cm cn s e) new_CrimeData = Inr ing"
    using raw_loop_total [OF agrees_empty] by blast
  then show "\<exists>cd'. build_crime_data_class CrimeData_class rows cct cy cm cn False cocc s e = Inr cd'"
    by (simp add: build_crime_data_class_def CrimeData_class_sel)
qed

subsection \<open>Processed mode\<close>

lemma processed_step_Inr:
  assumes "processed_row_step K cct cy cm cn cocc row cd = Inr cd'"
  shows "\<exists>ev. row_event cct cy cm cn cocc row = Some ev \<and> increment_at K ev cd = Inr cd'"
proof -
  from assms obtain c n y m a where
    k: "row_get row cct = Inr c" "row_get row cn = Inr n" "row_get row cy = Inr y"
       "row_get row cm = Inr m"
    and am: "(case cocc of None \<Rightarrow> Inl KeyError | Some col \<Rightarrow> row_get row col) = Inr a"
    and inc: "increment_crime_of K cd c n y m a = Inr cd'"
    unfolding processed_row_step_def py_bind_Inr by blast
  have "row_event cct cy cm cn cocc row = Some ((c, n, y, m), a)"
    using k am by (auto simp: row_event_def row_key_def row_count_cell_def split: option.splits)
  then show ?thesis using inc by (simp add: increment_at_def)
qed

lemma processed_step_readable:
  assumes "row_event cct cy cm cn cocc row = Some ev"
  shows "processed_row_step K cct cy cm cn cocc row cd = increment_at K ev cd"
proof -
  from assms obtain c n y m col a where
    k: "row_get row cct = Inr c" "row_get row cn = Inr n" "row_get row cy = Inr y"
       "row_get row cm = Inr m"
    and am: "cocc = Some col" "row_get row col = Inr a"
    and ev: "ev = ((c, n, y, m), a)"
    by (auto simp: row_event_def row_key_def row_count_cell_def split: option.splits sum.splits)
  show ?thesis
    using k am ev by (simp add: processed_row_step_def increment_at_def)
qed

lemma processed_loop_Inr:
  "for_loop rows (processed_row_step K cct cy cm cn cocc) cd = Inr cd' \<Longrightarrow>
     for_loop (List.map_filter (row_event cct cy cm cn cocc) rows) (increment_at K) cd = Inr cd'
     \<and> (\<forall>row \<in> set rows. processed_row_readable cct cy cm cn cocc row)"
proof (induction rows arbitrary: cd)
  case Nil
  then show ?case by simp
next
  case (Cons row rows)
  from Cons.prems obtain cd1 where
    st: "processed_row_step K cct cy cm cn cocc row cd = Inr cd1"
    and lp: "for_loop rows (processed_row_step K cct cy cm cn cocc) cd1 = Inr cd'"
    by (auto simp: py_bind_Inr)
  from processed_step_Inr [OF st] obtain ev where
    ev: "row_event cct cy cm cn cocc row = Some ev" "increment_at K ev cd = Inr cd1"
    by blast
  have "processed_row_readable cct cy cm cn cocc row"
    using ev(1) by (simp add: processed_row_readable_def)
  then show ?case
    using ev Cons.IH [OF lp] by simp
qed

lemma processed_loop_readable:
  "\<forall>row \<in> set rows. processed_row_readable cct cy cm cn cocc row \<Longrightarrow>
     for_loop rows (processed_row_step K cct cy cm cn cocc) cd =
       for_loop (List.map_filter (row_event cct cy cm cn cocc) rows) (increment_at K) cd
     \<and> length (List.map_filter (row_event cct cy cm cn cocc) rows) = length rows"
proof (induction rows arbitrary: cd)
  case Nil
  then show ?case by simp
next
  case (Cons row rows)
  obtain ev where ev: "row_event cct cy cm cn cocc row = Some ev"
    using Cons.prems by (auto simp: processed_row_readable_def)
  have ih: "for_loop rows (processed_row_step K cct cy cm cn cocc) =
       for_loop (List.map_filter (row_event cct cy cm cn cocc) rows) (increment_at K)"
    "length (List.map_filter (row_event cct cy cm cn cocc) rows) = length rows"
    using Cons by auto
  show ?case
    by (simp add: ev ih processed_step_readable [OF ev])
qed

text \<open>
  C4. In processed mode the function, starting from a new store, increments at the key path
  of every row, in the order of the rows, by the cell of the row's count column: no row is
  left out, whatever its date. A call that returns has done so, and on rows that have the
  five cells the call is this computation, with one increment for each row. The result does
  not depend on the range, nor on what \<^verbatim>\<open>fill_gaps\<close> does: it is not called.
\<close>

theorem processed_mode_pipeline:
  "(build_crime_data_class K rows cct cy cm cn True cocc s e = Inr cd \<longrightarrow>
      for_loop (List.map_filter (row_event cct cy cm cn cocc) rows) (increment_at K) (new_store K)
        = Inr cd
      \<and> list_all (processed_row_readable cct cy cm cn cocc) rows)
   \<and> (list_all (processed_row_readable cct cy cm cn cocc) rows \<longrightarrow>
        build_crime_data_class K rows cct cy cm cn True cocc s e =
          for_loop (List.map_filter (row_event cct cy cm cn cocc) rows) (increment_at K)
            (new_store K)
        \<and> length (List.map_filter (row_event cct cy cm cn cocc) rows) = length rows)
   \<and> build_crime_data_class (K\<lparr>fill_gaps_of := other_fill_gaps\<rparr>) rows cct cy cm cn True cocc s' e'
       = build_crime_data_class K rows cct cy cm cn True cocc s e"
proof (intro conjI impI)
  assume b: "build_crime_data_class K rows cct cy cm cn True cocc s e = Inr cd"
  then have lp: "for_loop rows (processed_row_step K cct cy cm cn cocc) (new_store K) = Inr cd"
    by (simp add: build_crime_data_class_def)
  show "for_loop (List.map_filter (row_event cct cy cm cn cocc) rows) (increment_at K) (new_store K)
        = Inr cd"
    using processed_loop_Inr [OF lp] by simp
  show "list_all (processed_row_readable cct cy cm cn cocc) rows"
    using processed_loop_Inr [OF lp] by (simp add: list_all_iff)
next
  assume r: "list_all (processed_row_readable cct cy cm cn cocc) rows"
  then have r': "\<forall>row \<in> set rows. processed_row_readable cct cy cm cn cocc row"
    by (simp add: list_all_iff)
  show "build_crime_data_class K rows cct cy cm cn True cocc s e =
          for_loop (List.map_filter (row_event cct cy cm cn cocc) rows) (increment_at K)
            (new_store K)"
    using processed_loop_readable [OF r', where K = K and cd = "new_store K"]
    by (simp add: build_crime_data_class_def)
  show "length (List.map_filter (row_event cct cy cm cn cocc) rows) = length rows"
    using processed_loop_readable [OF r', where K = K and cd = "new_store K"] by simp
next
  have "processed_row_step (K\<lparr>fill_gaps_of := other_fill_gaps\<rparr>) cct cy cm cn cocc
          = processed_row_step K cct cy cm cn cocc"
    by (intro ext) (simp add: processed_row_step_def)
  then show "build_crime_data_class (K\<lparr>fill_gaps_of := other_fill_gaps\<rparr>) rows cct cy cm cn True cocc s' e'
       = build_crime_data_class K rows cct cy cm cn True cocc s e"
    by (simp add: build_crime_data_class_def)
qed

theorem processed_mode_pipeline_witness:
  "list_all (processed_row_readable 0 2 3 1 (Some 4)) processed_rows
   \<and> List.map_filter (row_event 0 2 3 1 (Some 4)) processed_rows
       = [((PyStr ''Theft'', PyStr ''X'', PyInt 2003, PyInt 1), PyInt 5),
          ((PyStr ''Theft'', PyStr ''X'', PyInt 1990, PyInt 14), PyInt 0),
          ((PyStr ''Theft'', PyStr ''X'', PyInt 2003, PyInt 1), PyInt 2)]
   \<and> build_crime_data_class CrimeData_class processed_rows 0 2 3 1 True (Some 4) (2003, 1) (2003, 3)
       = Inr processed_result"
proof -
  have ok: "list_all (processed_row_readable 0 2 3 1 (Some 4)) processed_rows"
    by (simp add: processed_rows_def processed_row_readable_def row_event_def
          row_count_cell_def eval_defs)
  have evs: "List.map_filter (row_event 0 2 3 1 (Some 4)) processed_rows
       = [((PyStr ''Theft'', PyStr ''X'', PyInt 2003, PyInt 1), PyInt 5),
          ((PyStr ''Theft'', PyStr ''X'', PyInt 1990, PyInt 14), PyInt 0),
          ((PyStr ''Theft'', PyStr ''X'', PyInt 2003, PyInt 1), PyInt 2)]"
    by (simp add: processed_rows_def row_event_def row_count_cell_def eval_defs)
  have "build_crime_data_class CrimeData_class processed_rows 0 2 3 1 True (Some 4) (2003, 1) (2003, 3)
       = for_loop (List.map_filter (row_event 0 2 3 1 (Some 4)) processed_rows)
           (increment_at CrimeData_class) (new_store CrimeData_class)"
    using processed_mode_pipeline [of CrimeData_class processed_rows 0 2 3 1 "Some 4"
        "(2003, 1)" "(2003, 3)"] ok
    by blast
  also have "\<dots> = Inr processed_result"
    unfolding evs by (simp add: increment_at_def processed_result_def eval_defs)
  finally show ?thesis using ok evs by simp
qed

lemma processed_step_agrees:
  assumes "agrees cd L" "processed_row_step CrimeData_class cct cy cm cn cocc row cd = Inr cd'"
  shows "\<exists>ev. processed_event cct cy cm cn cocc row = Some ev \<and> agrees cd' (add_event ev L)"
proof -
  from assms(2) obtain c n y m a where
    k: "row_get row cct = Inr c" "row_get row cn = Inr n" "row_get row cy = Inr y"
       "row_get row cm = Inr m"
    and am: "(case cocc of None \<Rightarrow> Inl KeyError | Some col \<Rightarrow> row_get row col) = Inr a"
    and inc: "increment_crime cd c n y m a = Inr cd'"
    unfolding processed_row_step_def py_bind_Inr CrimeData_class_sel by blast
  from increment_agrees [OF assms(1) inc] obtain j where
    j: "a = PyInt j" and ag: "agrees cd' (add_event ((c, n, y, m), j) L)" by blast
  have "processed_event cct cy cm cn cocc row = Some ((c, n, y, m), j)"
    using k am j by (auto simp: processed_event_def row_key_def row_amount_def split: option.splits)
  then show ?thesis using ag by simp
qed

lemma processed_loop_agrees:
  "agrees cd L \<Longrightarrow> for_loop rows (processed_row_step CrimeData_class cct cy cm cn cocc) cd = Inr cd' \<Longrightarrow>
     agrees cd' (fold add_event (map (\<lambda>row. ((the (row_key cct cy cm cn row)), amount_of cocc row)) rows) L)
     \<and> (\<forall>row \<in> set rows. row_key cct cy cm cn row \<noteq> None)"
proof (induction rows arbitrary: cd L)
  case Nil
  then show ?case by simp
next
  case (Cons row rows)
  from Cons.prems(2) obtain cd1 where
    st: "processed_row_step CrimeData_class cct cy cm cn cocc row cd = Inr cd1"
    and lp: "for_loop rows (processed_row_step CrimeData_class cct cy cm cn cocc) cd1 = Inr cd'"
    by (auto simp: py_bind_Inr)
  from processed_step_agrees [OF Cons.prems(1) st] obtain ev where
    ev: "processed_event cct cy cm cn cocc row = Some ev" and ag: "agrees cd1 (add_event ev L)"
    by blast
  have "ev = (the (row_key cct cy cm cn row), amount_of cocc row)"
    "row_key cct cy cm cn row \<noteq> None"
    using ev by (auto simp: processed_event_def amount_of_def split: option.splits)
  then show ?case using Cons.IH [OF ag lp] by simp
qed

lemma processed_step_total:
  assumes "agrees cd L" "processed_row_ok cct cy cm cn cocc row"
  shows "\<exists>cd'. processed_row_step CrimeData_class cct cy cm cn cocc row cd = Inr cd'"
proof -
  from assms(2) obtain c n y m col a where
    k: "row_get row cct = Inr c" "row_get row cn = Inr n" "row_get row cy = Inr y"
       "row_get row cm = Inr m"
    and am: "cocc = Some col" "row_get row col = Inr (PyInt a)"
    by (auto simp: processed_row_ok_def row_key_def row_amount_def
          split: option.splits sum.splits pyval.splits)
  show ?thesis
    using k am increment_int_total [OF assms(1), of c n y m a]
    by (simp add: processed_row_step_def CrimeData_class_sel)
qed

lemma processed_loop_total:
  "agrees cd L \<Longrightarrow> \<forall>row \<in> set rows. processed_row_ok cct cy cm cn cocc row \<Longrightarrow>
     \<exists>cd'. for_loop rows (processed_row_step CrimeData_class cct cy cm cn cocc) cd = Inr cd'"
proof (induction rows arbitrary: cd L)
  case Nil
  then show ?case by simp
next
  case (Cons row rows)
  obtain cd1 where st: "processed_row_step CrimeData_class cct cy cm cn cocc row cd = Inr cd1"
    using processed_step_total [OF Cons.prems(1), of cct cy cm cn cocc row] Cons.prems(2) by auto
  obtain ev where "agrees cd1 (add_event ev L)"
    using processed_step_agrees [OF Cons.prems(1) st] by blast
  then show ?case
    using Cons.IH Cons.prems(2) st by simp
qed

lemma keyed_events_filter:
  "\<forall>row \<in> set rows. f row \<noteq> None \<Longrightarrow>
   filter (\<lambda>ev. fst ev = k) (map (\<lambda>row. (the (f row), g row)) rows)
     = map (\<lambda>row. (k, g row)) (filter (\<lambda>row. f row = Some k) rows)"
  by (induction rows) auto

text \<open>
  With the class modelled from the spec, the store that processed mode returns holds at every
  key path the sum of the counts of the rows that carry it.
\<close>

lemma processed_mode_counts:
  "(build_crime_data_class CrimeData_class rows cct cy cm cn True cocc s e = Inr cd \<longrightarrow>
      (\<forall>c n y m. get_count cd c n y m =
         (if filter (\<lambda>row. row_key cct cy cm cn row = Some (c, n, y, m)) rows = [] then None
          else Some (PyInt (sum_list (map (amount_of cocc)
                 (filter (\<lambda>row. row_key cct cy cm cn row = Some (c, n, y, m)) rows)))))))
   \<and> ((\<forall>row \<in> set rows. processed_row_ok cct cy cm cn cocc row) \<longrightarrow>
        (\<exists>cd'. build_crime_data_class CrimeData_class rows cct cy cm cn True cocc s e = Inr cd'))
   \<and> build_crime_data_class CrimeData_class rows cct cy cm cn True cocc s' e'
       = build_crime_data_class CrimeData_class rows cct cy cm cn True cocc s e"
proof (intro conjI impI)
  assume "build_crime_data_class CrimeData_class rows cct cy cm cn True cocc s e = Inr cd"
  then have lp: "for_loop rows (processed_row_step CrimeData_class cct cy cm cn cocc) new_CrimeData = Inr cd"
    by (simp add: build_crime_data_class_def CrimeData_class_sel)
  note ag = processed_loop_agrees [OF agrees_empty lp]
  show "\<forall>c n y m. get_count cd c n y m =
         (if filter (\<lambda>row. row_key cct cy cm cn row = Some (c, n, y, m)) rows = [] then None
          else Some (PyInt (sum_list (map (amount_of cocc)
                 (filter (\<lambda>row. row_key cct cy cm cn row = Some (c, n, y, m)) rows)))))"
    using ag
    by (simp add: agrees_def fold_add_event keyed_events_filter [where f = "row_key cct cy cm cn"]
          comp_def)
next
  assume "\<forall>row \<in> set rows. processed_row_ok cct cy cm cn cocc row"
  then show "\<exists>cd'. build_crime_data_class CrimeData_class rows cct cy cm cn True cocc s e = Inr cd'"
    using processed_loop_total [OF agrees_empty] by (simp add: build_crime_data_class_def CrimeData_class_sel)
next
  show "build_crime_data_class CrimeData_class rows cct cy cm cn True cocc s' e'
       = build_crime_data_class CrimeData_class rows cct cy cm cn True cocc s e"
    by (simp add: build_crime_data_class_def CrimeData_class_sel)
qed

text \<open>
  C10. In raw mode the result is the one obtained without a count column, whatever column is
  passed and whatever the class of the store does: the column is not read. On the single row
  (Theft, X, 2003, 1, 5) raw mode stores the count 1 and processed mode the count 5, so the
  two modes differ.
\<close>

theorem raw_mode_ignores_occurrences:
  "build_crime_data_class K rows cct cy cm cn False cocc s e
     = build_crime_data_class K rows cct cy cm cn False None s e
   \<and> build_crime_data_class CrimeData_class (one_row 5) 0 2 3 1 False (Some 4) (2003, 1) (2003, 1)
       = Inr (one_count 1)
   \<and> build_crime_data_class CrimeData_class (one_row 5) 0 2 3 1 True (Some 4) (2003, 1) (2003, 1)
       = Inr (one_count 5)
   \<and> one_count 1 \<noteq> one_count 5"
proof -
  have "build_crime_data_class K rows cct cy cm cn False cocc s e
     = build_crime_data_class K rows cct cy cm cn False None s e"
    by (simp add: build_crime_data_class_def)
  moreover have "build_crime_data_class CrimeData_class (one_row 5) 0 2 3 1 False (Some 4)
      (2003, 1) (2003, 1) = Inr (one_count 1)"
    by (simp add: one_row_def one_count_def eval_defs)
  moreover have "build_crime_data_class CrimeData_class (one_row 5) 0 2 3 1 True (Some 4)
      (2003, 1) (2003, 1) = Inr (one_count 5)"
    by (simp add: one_row_def one_count_def eval_defs)
  moreover have "one_count 1 \<noteq> one_count 5"
    by (simp add: one_count_def)
  ultimately show ?thesis by blast
qed

section \<open>Counts over the life of a store\<close>

lemma agrees_fill_gaps:
  assumes "agrees cd L"
  shows "agrees (fill_gaps cd s e)
           (\<lambda>k. if get_count (fill_gaps cd s e) (fst k) (fst (snd k)) (fst (snd (snd k)))
                      (snd (snd (snd k))) = Some (PyInt 0) \<and> L k = None
                 then Some 0 else L k)"
  using assms unfolding agrees_def
  by (auto simp: get_count_fill_gaps)

lemma nonneg_ledgerD: "nonneg_ledger L \<Longrightarrow> L k = Some b \<Longrightarrow> 0 \<le> b"
  unfolding nonneg_ledger_def by blast

lemma nonneg_ledgerI: "(\<And>k b. L k = Some b \<Longrightarrow> 0 \<le> b) \<Longrightarrow> nonneg_ledger L"
  unfolding nonneg_ledger_def by blast

lemma nonneg_ledger_add:
  assumes "nonneg_ledger L" "0 \<le> snd ev"
  shows "nonneg_ledger (add_event ev L)"
proof (rule nonneg_ledgerI)
  fix k b
  assume kb: "add_event ev L k = Some b"
  have base: "0 \<le> (case L (fst ev) of None \<Rightarrow> 0 | Some b \<Rightarrow> b)"
    using nonneg_ledgerD [OF assms(1), of "fst ev"] by (cases "L (fst ev)") simp_all
  show "0 \<le> b"
  proof (cases "k = fst ev")
    case True
    then show ?thesis using kb base assms(2) by (simp add: add_event_def)
  next
    case False
    then have "L k = Some b" using kb by (simp add: add_event_def)
    then show ?thesis by (rule nonneg_ledgerD [OF assms(1)])
  qed
qed

lemma apply_op_nonneg:
  assumes "agrees cd L" "nonneg_ledger L" "nonneg_amount op"
  shows "\<exists>cd' L'. apply_op op cd = Inr cd' \<and> agrees cd' L' \<and> nonneg_ledger L'"
proof (cases op)
  case (Increment c n y m a)
  obtain cd' where inc: "increment_crime cd c n y m (PyInt a) = Inr cd'"
    using increment_int_total [OF assms(1)] by blast
  have "agrees cd' (add_event ((c, n, y, m), a) L)"
    using increment_agrees [OF assms(1) inc] by simp
  moreover have "nonneg_ledger (add_event ((c, n, y, m), a) L)"
    using assms(2,3) Increment by (simp add: nonneg_ledger_add)
  ultimately show ?thesis using inc Increment by auto
next
  case (FillGaps s e)
  let ?L = "\<lambda>k. if get_count (fill_gaps cd s e) (fst k) (fst (snd k)) (fst (snd (snd k)))
                      (snd (snd (snd k))) = Some (PyInt 0) \<and> L k = None
                 then Some 0 else L k"
  have "agrees (fill_gaps cd s e) ?L" using assms(1) by (rule agrees_fill_gaps)
  moreover have "nonneg_ledger ?L"
  proof (rule nonneg_ledgerI)
    fix k b
    assume "?L k = Some b"
    then have "b = 0 \<or> L k = Some b" by (simp split: if_splits)
    then show "0 \<le> b" using nonneg_ledgerD [OF assms(2), of k b] by auto
  qed
  ultimately show ?thesis using FillGaps by auto
qed

lemma lifecycle_nonneg:
  "agrees cd L \<Longrightarrow> nonneg_ledger L \<Longrightarrow> \<forall>op \<in> set ops. nonneg_amount op \<Longrightarrow>
     \<exists>cd' L'. for_loop ops apply_op cd = Inr cd' \<and> agrees cd' L' \<and> nonneg_ledger L'"
proof (induction ops arbitrary: cd L)
  case Nil
  then show ?case by auto
next
  case (Cons op ops)
  obtain cd1 L1 where st: "apply_op op cd = Inr cd1" "agrees cd1 L1" "nonneg_ledger L1"
    using apply_op_nonneg [OF Cons.prems(1,2), of op] Cons.prems(3) by auto
  show ?case
    using Cons.IH [OF st(2,3)] Cons.prems(3) st(1) by simp
qed

text \<open>
  C8. Over the life of a store (created empty, then incremented and gap-filled in any order)
  every stored count is a non-negative integer: with the amounts the spec gives to increment,
  non-negative integers (1 for a raw row, the pre-aggregated count of a processed row), every
  sequence of increments and gap-fills runs without error and leaves only counts that are
  at least 0.
\<close>

theorem counts_nonnegative:
  assumes "\<forall>op \<in> set ops. nonneg_amount op"
  shows "\<exists>cd. lifecycle ops = Inr cd
           \<and> (\<forall>c n y m v. get_count cd c n y m = Some v \<longrightarrow> nonneg_count v)"
proof -
  have "nonneg_ledger Map.empty" by (simp add: nonneg_ledger_def)
  from lifecycle_nonneg [OF agrees_empty this assms]
  obtain cd L where r: "for_loop ops apply_op new_CrimeData = Inr cd" "agrees cd L" "nonneg_ledger L"
    by blast
  have "nonneg_count v" if h: "get_count cd c n y m = Some v" for c n y m v
  proof -
    have "get_count cd c n y m = map_option PyInt (L (c, n, y, m))"
      using r(2) by (simp add: agrees_def)
    then obtain b where "L (c, n, y, m) = Some b" "v = PyInt b"
      using h by (cases "L (c, n, y, m)") auto
    then show ?thesis using nonneg_ledgerD [OF r(3)] by (simp add: nonneg_count_def)
  qed
  then have "\<forall>c n y m v. get_count cd c n y m = Some v \<longrightarrow> nonneg_count v" by blast
  then show ?thesis using r(1) by (simp add: lifecycle_def)
qed

theorem counts_nonnegative_witness:
  "list_all nonneg_amount theft_ops
   \<and> lifecycle theft_ops = Inr theft_filled
   \<and> get_count theft_filled (PyStr ''Theft'') (PyStr ''X'') (PyInt 2003) (PyInt 2)
       = Some (PyInt 0)
   \<and> nonneg_count (PyInt 0)"
proof -
  have ok: "list_all nonneg_amount theft_ops" by (simp add: theft_ops_def)
  then have ok': "\<forall>op \<in> set theft_ops. nonneg_amount op" by (simp add: list_all_iff)
  have ev: "lifecycle theft_ops = Inr theft_filled"
    by (simp add: theft_ops_def theft_filled_def lifecycle_def eval_defs)
  have g: "get_count theft_filled (PyStr ''Theft'') (PyStr ''X'') (PyInt 2003) (PyInt 2)
       = Some (PyInt 0)"
    by (simp add: theft_filled_def eval_defs)
  from counts_nonnegative [OF ok'] ev g have "nonneg_count (PyInt 0)" by auto
  then show ?thesis using ok ev g by simp
qed

section \<open>Properties of export\<close>

text \<open>A loop over the keys of a dictionary whose body appends records never raises.\<close>

lemma expected_shape_isinstance:
  "expected_shape c n y m v \<longleftrightarrow>
     isinstance_str c \<and> isinstance_str n \<and> isinstance_int y \<and> isinstance_int m \<and> isinstance_int v"
  by (cases c; cases n; cases y; cases m; cases v) (simp_all add: isinstance_str_def isinstance_int_def)

lemma columns_of_append:
  "columns_of rows
      \<lparr>fd_crime_type := fd_crime_type (columns_of rows) @ [c],
       fd_neighbourhood := fd_neighbourhood (columns_of rows) @ [n],
       fd_year := fd_year (columns_of rows) @ [y],
       fd_month := fd_month (columns_of rows) @ [m],
       fd_count := fd_count (columns_of rows) @ [v]\<rparr>
     = columns_of (rows @ [(c, n, y, m, v)])"
  by (simp add: columns_of_def)

lemma for_loop_dict:
  assumes body: "\<And>k v rows. map_of d k = Some v \<Longrightarrow>
                   body k v (columns_of rows) = Inr (columns_of (rows @ g k v))"
  shows "\<forall>k \<in> set ks. map_of d k \<noteq> None \<Longrightarrow>
     for_loop ks (\<lambda>k fd. py_bind (getitem d k) (\<lambda>v. body k v fd)) (columns_of rows)
       = Inr (columns_of (rows @ concat (map (\<lambda>kv. g (fst kv) (snd kv))
               (List.map_filter (\<lambda>k. map_option (Pair k) (map_of d k)) ks))))"
proof (induction ks arbitrary: rows)
  case Nil
  then show ?case by simp
next
  case (Cons k ks)
  then obtain v where v: "map_of d k = Some v" by auto
  show ?case
    using Cons.IH [of "rows @ g k v"] Cons.prems v body [OF v, of rows]
    by (simp add: getitem_def)
qed

lemma keys_in_dom: "\<forall>k \<in> set (keys d). map_of d k \<noteq> None"
  by (auto simp: keys_def map_of_eq_None_iff)

lemma for_loop_visited:
  assumes "\<And>k v rows. map_of d k = Some v \<Longrightarrow>
             body k v (columns_of rows) = Inr (columns_of (rows @ g k v))"
  shows "for_loop (keys d) (\<lambda>k fd. py_bind (getitem d k) (\<lambda>v. body k v fd)) (columns_of rows)
       = Inr (columns_of (rows @ concat (map (\<lambda>kv. g (fst kv) (snd kv)) (visited d))))"
  unfolding visited_def
  by (rule for_loop_dict [where d = d and body = body and g = g]) (simp_all add: assms keys_in_dom)

lemma create_csv_rows: "create_csv cd = Inr (columns_of (exported_rows cd))"
proof -
  have months: "for_loop (keys months) (\<lambda>month formatted.
             py_bind (getitem months month) (\<lambda>count.
               if isinstance_str c \<and> isinstance_str n \<and> isinstance_int y
                  \<and> isinstance_int month \<and> isinstance_int count
               then Inr (formatted
                      \<lparr>fd_crime_type := fd_crime_type formatted @ [c],
                       fd_neighbourhood := fd_neighbourhood formatted @ [n],
                       fd_year := fd_year formatted @ [y],
                       fd_month := fd_month formatted @ [month],
                       fd_count := fd_count formatted @ [count]\<rparr>)
               else Inr formatted)) (columns_of rows)
        = Inr (columns_of (rows @ month_rows c n y months))" for c n y months rows
    unfolding month_rows_def
    by (rule for_loop_visited [where g = "\<lambda>m v. if expected_shape c n y m v
                        then [(c, n, y, m, v)] else []"])
       (simp add: columns_of_append expected_shape_isinstance)
  have years: "for_loop (keys (occurrences series)) (\<lambda>year formatted.
           py_bind (getitem (occurrences series) year) (\<lambda>months.
           for_loop (keys months) (\<lambda>month formatted.
             py_bind (getitem months month) (\<lambda>count.
               if isinstance_str c \<and> isinstance_str n \<and> isinstance_int year
                  \<and> isinstance_int month \<and> isinstance_int count
               then Inr (formatted
                      \<lparr>fd_crime_type := fd_crime_type formatted @ [c],
                       fd_neighbourhood := fd_neighbourhood formatted @ [n],
                       fd_year := fd_year formatted @ [year],
                       fd_month := fd_month formatted @ [month],
                       fd_count := fd_count formatted @ [count]\<rparr>)
               else Inr formatted))
             formatted)) (columns_of rows)
        = Inr (columns_of (rows @ year_rows c n series))" for c n series rows
    unfolding year_rows_def
    by (rule for_loop_visited [where g = "\<lambda>y ms. month_rows c n y ms"]) (simp add: months)
  have nbs: "for_loop (keys neighbourhoods) (\<lambda>neighbourhood formatted.
         py_bind (getitem neighbourhoods neighbourhood) (\<lambda>series.
         for_loop (keys (occurrences series)) (\<lambda>year formatted.
           py_bind (getitem (occurrences series) year) (\<lambda>months.
           for_loop (keys months) (\<lambda>month formatted.
             py_bind (getitem months month) (\<lambda>count.
               if isinstance_str c \<and> isinstance_str neighbourhood \<and> isinstance_int year
                  \<and> isinstance_int month \<and> isinstance_int count
               then Inr (formatted
                      \<lparr>fd_crime_type := fd_crime_type formatted @ [c],
                       fd_neighbourhood := fd_neighbourhood formatted @ [neighbourhood],
                       fd_year := fd_year formatted @ [year],
                       fd_month := fd_month formatted @ [month],
                       fd_count := fd_count formatted @ [count]\<rparr>)
               else Inr formatted))
             formatted))
           formatted)) (columns_of rows)
        = Inr (columns_of (rows @ neighbourhood_rows c neighbourhoods))" for c neighbourhoods rows
    unfolding neighbourhood_rows_def
    by (rule for_loop_visited [where g = "\<lambda>n series. year_rows c n series"]) (simp add: years)
  have start: "new_formatted_dict = columns_of []"
    by (simp add: new_formatted_dict_def columns_of_def)
  have "create_csv cd = Inr (columns_of ([] @ exported_rows cd))"
    unfolding create_csv_def exported_rows_def start
    by (rule for_loop_visited [where g = "\<lambda>c ns. neighbourhood_rows c ns"]) (simp add: nbs)
  then show ?thesis by simp
qed

text \<open>The records collected are the leaves of the expected shape, each once.\<close>

lemma in_visited_keys:
  "(k, v) \<in> set (List.map_filter (\<lambda>k. map_option (Pair k) (map_of d k)) ks)
     \<longleftrightarrow> k \<in> set ks \<and> map_of d k = Some v"
  by (induction ks) (auto split: option.splits)

lemma in_visited: "(k, v) \<in> set (visited d) \<longleftrightarrow> map_of d k = Some v"
proof -
  have "map_of d k = Some v \<Longrightarrow> k \<in> set (keys d)"
    using keys_in_dom [of d] by (auto simp: keys_def dest!: map_of_SomeD intro: rev_image_eqI)
  then show ?thesis by (auto simp: visited_def in_visited_keys)
qed

lemma map_filter_cong_set:
  "\<forall>k \<in> set ks. f k = g k \<Longrightarrow> List.map_filter f ks = List.map_filter g ks"
  by (induction ks) (simp_all split: option.splits)

lemma visited_distinct: "distinct (keys d) \<Longrightarrow> visited d = d"
proof (induction d)
  case Nil
  then show ?case by (simp add: visited_def keys_def)
next
  case (Cons x d)
  have "k \<noteq> fst x" if "k \<in> set (keys d)" for k
    using Cons.prems that by (force simp: keys_def)
  then have "\<forall>k \<in> set (keys d). map_option (Pair k) (map_of (x # d) k) = map_option (Pair k) (map_of d k)"
    by simp
  then have "List.map_filter (\<lambda>k. map_option (Pair k) (map_of (x # d) k)) (keys d) = visited d"
    unfolding visited_def by (rule map_filter_cong_set)
  moreover have "visited (x # d)
      = (fst x, snd x) # List.map_filter (\<lambda>k. map_option (Pair k) (map_of (x # d) k)) (keys d)"
    by (simp add: visited_def keys_def)
  moreover have "visited d = d" using Cons by (simp add: keys_def)
  ultimately show ?case by simp
qed

lemma bex_visited:
  "(\<exists>kv \<in> set (visited d). Q kv) \<longleftrightarrow> (\<exists>k v. map_of d k = Some v \<and> Q (k, v))"
proof -
  have "(\<exists>kv \<in> set (visited d). Q kv) \<longleftrightarrow> (\<exists>k v. (k, v) \<in> set (visited d) \<and> Q (k, v))"
    by (metis prod.collapse)
  then show ?thesis by (simp only: in_visited)
qed

lemma in_month_rows:
  "r \<in> set (month_rows c n y months) \<longleftrightarrow>
     (\<exists>m v. map_of months m = Some v \<and> r = (c, n, y, m, v) \<and> expected_shape c n y m v)"
proof -
  have "r \<in> set (month_rows c n y months) \<longleftrightarrow>
      (\<exists>kv \<in> set (visited months). r = (c, n, y, fst kv, snd kv) \<and> expected_shape c n y (fst kv) (snd kv))"
    unfolding month_rows_def set_concat by (auto split: if_splits)
  then show ?thesis by (simp add: bex_visited)
qed

lemma in_year_rows:
  "r \<in> set (year_rows c n series) \<longleftrightarrow>
     (\<exists>y m v. series_get series y m = Some v \<and> r = (c, n, y, m, v) \<and> expected_shape c n y m v)"
proof -
  have "r \<in> set (year_rows c n series) \<longleftrightarrow>
      (\<exists>kv \<in> set (visited (occurrences series)). r \<in> set (month_rows c n (fst kv) (snd kv)))"
    unfolding year_rows_def set_concat by auto
  also have "\<dots> \<longleftrightarrow> (\<exists>y months. map_of (occurrences series) y = Some months
      \<and> r \<in> set (month_rows c n y months))"
    by (simp add: bex_visited)
  also have "\<dots> \<longleftrightarrow> (\<exists>y m v. series_get series y m = Some v \<and> r = (c, n, y, m, v)
      \<and> expected_shape c n y m v)"
    by (auto simp: in_month_rows series_get_def split: option.splits)
  finally show ?thesis .
qed

lemma in_neighbourhood_rows:
  "r \<in> set (neighbourhood_rows c nbs) \<longleftrightarrow>
     (\<exists>n series y m v. map_of nbs n = Some series \<and> series_get series y m = Some v
        \<and> r = (c, n, y, m, v) \<and> expected_shape c n y m v)"
proof -
  have "r \<in> set (neighbourhood_rows c nbs) \<longleftrightarrow>
      (\<exists>kv \<in> set (visited nbs). r \<in> set (year_rows c (fst kv) (snd kv)))"
    unfolding neighbourhood_rows_def set_concat by auto
  also have "\<dots> \<longleftrightarrow> (\<exists>n series. map_of nbs n = Some series \<and> r \<in> set (year_rows c n series))"
    by (simp add: bex_visited)
  finally show ?thesis by (simp add: in_year_rows)
qed

lemma in_exported_rows:
  "(c, n, y, m, v) \<in> set (exported_rows cd) \<longleftrightarrow>
     get_count cd c n y m = Some v \<and> expected_shape c n y m v"
proof -
  have "(c, n, y, m, v) \<in> set (exported_rows cd) \<longleftrightarrow>
      (\<exists>kv \<in> set (visited (crime_occurrences cd)).
         (c, n, y, m, v) \<in> set (neighbourhood_rows (fst kv) (snd kv)))"
    unfolding exported_rows_def set_concat by auto
  also have "\<dots> \<longleftrightarrow> (\<exists>c' nbs. map_of (crime_occurrences cd) c' = Some nbs
      \<and> (c, n, y, m, v) \<in> set (neighbourhood_rows c' nbs))"
    by (simp add: bex_visited)
  also have "\<dots> \<longleftrightarrow> get_count cd c n y m = Some v \<and> expected_shape c n y m v"
    by (auto simp: in_neighbourhood_rows get_count_def split: option.splits)
  finally show ?thesis .
qed

lemma distinct_concat_keyed:
  assumes "distinct (keys d)"
    and "\<And>k v. (k, v) \<in> set d \<Longrightarrow> distinct (f k v)"
    and "\<And>k v r. (k, v) \<in> set d \<Longrightarrow> r \<in> set (f k v) \<Longrightarrow> key r = k"
  shows "distinct (concat (map (\<lambda>kv. f (fst kv) (snd kv)) d))"
  using assms
proof (induction d)
  case Nil
  then show ?case by simp
next
  case (Cons x d)
  have rest: "distinct (concat (map (\<lambda>kv. f (fst kv) (snd kv)) d))"
  proof (rule Cons.IH)
    show "distinct (keys d)" using Cons.prems(1) by (simp add: keys_def)
    show "distinct (f k v)" if "(k, v) \<in> set d" for k v
      using Cons.prems(2) [of k v] that by simp
    show "key r = k" if "(k, v) \<in> set d" "r \<in> set (f k v)" for k v r
      using Cons.prems(3) [of k v r] that by simp
  qed
  have here: "distinct (f (fst x) (snd x))"
    using Cons.prems(2) [of "fst x" "snd x"] by simp
  have "key r = fst x" if "r \<in> set (f (fst x) (snd x))" for r
    using Cons.prems(3) [of "fst x" "snd x" r] that by simp
  moreover have "key r \<in> set (keys d)" if "r \<in> set (concat (map (\<lambda>kv. f (fst kv) (snd kv)) d))" for r
  proof -
    from that obtain kv where kv: "kv \<in> set d" "r \<in> set (f (fst kv) (snd kv))" by auto
    then have "key r = fst kv" using Cons.prems(3) [of "fst kv" "snd kv" r] by simp
    then show ?thesis using kv(1) by (simp add: keys_def)
  qed
  moreover have "fst x \<notin> set (keys d)" using Cons.prems(1) by (simp add: keys_def)
  ultimately have "r \<notin> set (concat (map (\<lambda>kv. f (fst kv) (snd kv)) d))"
    if "r \<in> set (f (fst x) (snd x))" for r
    using that by metis
  then have "set (f (fst x) (snd x)) \<inter> set (concat (map (\<lambda>kv. f (fst kv) (snd kv)) d)) = {}"
    by (simp add: disjoint_iff)
  then show ?case using rest here by simp
qed

lemma distinct_exported_rows:
  assumes "unique_keys cd"
  shows "distinct (exported_rows cd)"
proof -
  have months: "distinct (month_rows c n y months)" if "distinct (keys months)" for c n y months
    unfolding month_rows_def visited_distinct [OF that]
    by (rule distinct_concat_keyed [where key = "\<lambda>r. fst (snd (snd (snd r)))", OF that])
       (auto split: if_splits)
  have years: "distinct (year_rows c n series)" if u: "unique_series series" for c n series
  proof -
    have d: "distinct (keys (occurrences series))" using u by (simp add: unique_series_def)
    show ?thesis
      unfolding year_rows_def visited_distinct [OF d]
    proof (rule distinct_concat_keyed [where key = "\<lambda>r. fst (snd (snd r))", OF d])
      fix y ms assume "(y, ms) \<in> set (occurrences series)"
      then have "distinct (keys ms)" using u by (auto simp: unique_series_def)
      then show "distinct (month_rows c n y ms)" by (rule months)
    next
      fix y ms r assume "r \<in> set (month_rows c n y ms)"
      then show "fst (snd (snd r)) = y" by (auto simp: in_month_rows)
    qed
  qed
  have nbs: "distinct (neighbourhood_rows c ns)" if u: "unique_neighbourhoods ns" for c ns
  proof -
    have d: "distinct (keys ns)" using u by (simp add: unique_neighbourhoods_def)
    show ?thesis
      unfolding neighbourhood_rows_def visited_distinct [OF d]
    proof (rule distinct_concat_keyed [where key = "\<lambda>r. fst (snd r)", OF d])
      fix n series assume "(n, series) \<in> set ns"
      then have "unique_series series" using u by (auto simp: unique_neighbourhoods_def)
      then show "distinct (year_rows c n series)" by (rule years)
    next
      fix n series r assume "r \<in> set (year_rows c n series)"
      then show "fst (snd r) = n" by (auto simp: in_year_rows)
    qed
  qed
  have d: "distinct (keys (crime_occurrences cd))" using assms by (simp add: unique_keys_def)
  show ?thesis
    unfolding exported_rows_def visited_distinct [OF d]
  proof (rule distinct_concat_keyed [where key = fst, OF d])
    fix c ns assume "(c, ns) \<in> set (crime_occurrences cd)"
    then have "unique_neighbourhoods ns" using assms by (auto simp: unique_keys_def)
    then show "distinct (neighbourhood_rows c ns)" by (rule nbs)
  next
    fix c ns r assume "r \<in> set (neighbourhood_rows c ns)"
    then show "fst r = c" by (auto simp: in_neighbourhood_rows)
  qed
qed

text \<open>
  C5. \<^verbatim>\<open>create_csv\<close> never raises. The records it emits are exactly the leaf entries
  whose keys and count have the classes (str, str, int, int, int): a leaf of another shape is
  left out, and every leaf of that shape is there, whatever else the store holds. When the
  keys of the store are unique at every level, as in a dictionary, no record is emitted
  twice.
\<close>

theorem create_csv_exports_conforming_leaves:
  "\<exists>rows. create_csv cd = Inr (columns_of rows)
     \<and> (\<forall>c n y m v. (c, n, y, m, v) \<in> set rows
          \<longleftrightarrow> get_count cd c n y m = Some v \<and> expected_shape c n y m v)
     \<and> (unique_keys cd \<longrightarrow> distinct rows)"
  using create_csv_rows [of cd] in_exported_rows [of _ _ _ _ _ cd] distinct_exported_rows [of cd]
  by blast

theorem create_csv_exports_conforming_leaves_witness:
  "unique_keys mixed_store
   \<and> create_csv mixed_store
       = Inr \<lparr>fd_crime_type = [PyStr ''Theft'', PyStr ''Mischief''],
              fd_neighbourhood = [PyStr ''X'', PyStr ''X''],
              fd_year = [PyInt 2003, PyInt 2004],
              fd_month = [PyInt 1, PyInt 3],
              fd_count = [PyInt 2, PyInt 0]\<rparr>
   \<and> (\<exists>rows. create_csv mixed_store = Inr (columns_of rows) \<and> distinct rows
         \<and> (PyStr ''Theft'', PyStr ''X'', PyInt 2003, PyInt 1, PyInt 2) \<in> set rows
         \<and> (PyStr ''Theft'', PyStr ''X'', PyInt 2003, PyInt 2, PyNone) \<notin> set rows
         \<and> (PyStr ''Theft'', PyNone, PyInt 2003, PyInt 1, PyInt 4) \<notin> set rows
         \<and> (PyStr ''Mischief'', PyStr ''X'', PyStr ''2003'', PyInt 1, PyInt 1) \<notin> set rows)"
proof -
  have u: "unique_keys mixed_store"
    by (simp add: mixed_store_def unique_keys_def unique_neighbourhoods_def unique_series_def
          keys_def)
  have ev: "create_csv mixed_store
       = Inr \<lparr>fd_crime_type = [PyStr ''Theft'', PyStr ''Mischief''],
              fd_neighbourhood = [PyStr ''X'', PyStr ''X''],
              fd_year = [PyInt 2003, PyInt 2004],
              fd_month = [PyInt 1, PyInt 3],
              fd_count = [PyInt 2, PyInt 0]\<rparr>"
    by (simp add: mixed_store_def create_csv_def keys_def getitem_def new_formatted_dict_def
          isinstance_str_def isinstance_int_def)
  from create_csv_exports_conforming_leaves [of mixed_store] u
  obtain rows where r: "create_csv mixed_store = Inr (columns_of rows)" "distinct rows"
    and mem: "\<And>c n y m v. (c, n, y, m, v) \<in> set rows
          \<longleftrightarrow> get_count mixed_store c n y m = Some v \<and> expected_shape c n y m v"
    by blast
  have "(PyStr ''Theft'', PyStr ''X'', PyInt 2003, PyInt 1, PyInt 2) \<in> set rows"
    "(PyStr ''Theft'', PyStr ''X'', PyInt 2003, PyInt 2, PyNone) \<notin> set rows"
    "(PyStr ''Theft'', PyNone, PyInt 2003, PyInt 1, PyInt 4) \<notin> set rows"
    "(PyStr ''Mischief'', PyStr ''X'', PyStr ''2003'', PyInt 1, PyInt 1) \<notin> set rows"
    unfolding mem by (simp_all add: mixed_store_def get_count_def series_get_def)
  then show ?thesis using u ev r by blast
qed

end
